theory Spec2Isabelle
  imports Complex_Main "HOL-Library.Multiset"
begin

section \<open>CTC decoding: greedy, beam search and prefix scores\<close>

text \<open>
  The theory embeds the three decoding routines of
  \<^verbatim>\<open>neural_sp/models/seq2seq/decoders/ctc.py\<close>: \<^verbatim>\<open>CTC.greedy\<close>,
  \<^verbatim>\<open>CTC.beam_search\<close> and the class \<^verbatim>\<open>CTCPrefixScore\<close>.

  Modelling decisions.
  \<^item> The input of every routine is the table of log-probabilities of one utterance
    (the value of \<^verbatim>\<open>F.log_softmax(self.output(eouts))\<close> at batch index \<^verbatim>\<open>b\<close>):
    a list of frames, each frame a list of one number per label.  The network that
    produces the table is outside the model.
  \<^item> Numbers are real numbers; \<^verbatim>\<open>np.logaddexp\<close> is the exact function
    \<open>ln (exp a + exp b)\<close>.  Rounding of floating-point arithmetic is not modelled.
  \<^item> Label indices and frame counts are natural numbers; \<^verbatim>\<open>beam_width\<close> is a
    Python integer and is kept as an \<open>int\<close>.
  \<^item> Every exception the Python code can raise is a value \<open>Inl e\<close> of the result.
\<close>

datatype error = IndexError | KeyError | ValueError | RuntimeError

subsection \<open>Library functions the code calls\<close>

text \<open>\<^verbatim>\<open>LOG_0 = float(np.finfo(np.float32).min)\<close>, \<^verbatim>\<open>LOG_1 = 0\<close>.\<close>

definition LOG_0 :: real where
  "LOG_0 = - 340282346638528859811704183484516925440"

definition LOG_1 :: real where
  "LOG_1 = 0"

text \<open>\<^verbatim>\<open>np.logaddexp\<close>: the logarithm of the sum of the exponentials.\<close>

definition logaddexp :: "real \<Rightarrow> real \<Rightarrow> real" where
  "logaddexp a b = ln (exp a + exp b)"

text \<open>
  Modelled from the spec: \<^verbatim>\<open>Tensor.argmax\<close> belongs to the tensor library, not to
  the repository.  It returns the index of the maximum of a frame, the lowest such
  index when the maximum occurs more than once; an empty frame is an error.  The scan
  keeps the best index seen so far and replaces it only by a strictly larger entry.
\<close>

fun argmax_scan :: "real list \<Rightarrow> nat \<Rightarrow> nat \<Rightarrow> real \<Rightarrow> nat" where
  "argmax_scan [] i best bv = best"
| "argmax_scan (x # xs) i best bv =
     (if bv < x then argmax_scan xs (Suc i) i x else argmax_scan xs (Suc i) best bv)"

definition argmax :: "real list \<Rightarrow> error + nat" where
  "argmax row = (case row of [] \<Rightarrow> Inl RuntimeError | x # xs \<Rightarrow> Inr (argmax_scan xs 1 0 x))"

text \<open>
  \<^verbatim>\<open>itertools.groupby\<close> without a key function: the maximal runs of equal
  consecutive elements, each with its key.
\<close>

function groupby :: "'a list \<Rightarrow> ('a \<times> 'a list) list" where
  "groupby [] = []"
| "groupby (x # xs) =
     (x, x # takeWhile (\<lambda>y. y = x) xs) # groupby (dropWhile (\<lambda>y. y = x) xs)"
  by pat_completeness auto
termination
  by (relation "measure length") (auto simp: length_dropWhile_le less_Suc_eq_le)

subsection \<open>Greedy decoding\<close>

text \<open>
  The body of the loop over the batch in \<^verbatim>\<open>CTC.greedy\<close>, for one utterance with
  table \<open>log_probs\<close> and \<open>time = elens[b]\<close> frames.  \<open>pick_argmax\<close> is the inner loop
  \<^verbatim>\<open>for t in range(time)\<close>; reading a frame beyond the table raises.
\<close>

fun pick_argmax :: "real list list \<Rightarrow> nat list \<Rightarrow> error + nat list" where
  "pick_argmax log_probs [] = Inr []"
| "pick_argmax log_probs (t # ts) =
     (if t < length log_probs then
        (case argmax (log_probs ! t) of
           Inl e \<Rightarrow> Inl e
         | Inr a \<Rightarrow> (case pick_argmax log_probs ts of
                       Inl e \<Rightarrow> Inl e
                     | Inr indices \<Rightarrow> Inr (a # indices)))
      else Inl IndexError)"

definition greedy_utt :: "nat \<Rightarrow> real list list \<Rightarrow> nat \<Rightarrow> error + nat list" where
  "greedy_utt blank log_probs time =
     (case pick_argmax log_probs [0..<time] of
        Inl e \<Rightarrow> Inl e
      | Inr indices \<Rightarrow>
          (let collapsed_indices = map fst (groupby indices);
               best_hyp = filter (\<lambda>x. x \<noteq> blank) collapsed_indices
           in Inr best_hyp))"

text \<open>The loop over the batch: the utterances are decoded one after the other.\<close>

fun greedy :: "nat \<Rightarrow> (real list list \<times> nat) list \<Rightarrow> error + nat list list" where
  "greedy blank [] = Inr []"
| "greedy blank ((log_probs, time) # rest) =
     (case greedy_utt blank log_probs time of
        Inl e \<Rightarrow> Inl e
      | Inr best_hyp \<Rightarrow> (case greedy blank rest of
                          Inl e \<Rightarrow> Inl e
                        | Inr best_hyps \<Rightarrow> Inr (best_hyp # best_hyps)))"

text \<open>
  The greedy decoder as the specification words it: per frame the label of maximum
  log-probability, the lowest index among equals; runs of repeated labels collapsed to
  their first element; every blank removed.
\<close>

definition spec_best_label :: "real list \<Rightarrow> nat" where
  "spec_best_label row =
     Min {i. i < length row \<and> (\<forall>j < length row. row ! j \<le> row ! i)}"

definition spec_greedy :: "nat \<Rightarrow> real list list \<Rightarrow> nat list" where
  "spec_greedy blank frames =
     filter (\<lambda>x. x \<noteq> blank) (remdups_adj (map spec_best_label frames))"

subsection \<open>CTC prefix scores\<close>

text \<open>
  The class \<^verbatim>\<open>CTCPrefixScore\<close>.  Its attributes \<^verbatim>\<open>blank\<close>, \<^verbatim>\<open>eos\<close> and
  \<^verbatim>\<open>log_probs\<close> are arguments of the functions below; \<^verbatim>\<open>xlen\<close> is the number of
  frames of \<^verbatim>\<open>log_probs\<close>.  A state (\<^verbatim>\<open>r\<close> of \<^verbatim>\<open>initial_state\<close>, \<^verbatim>\<open>r_prev\<close>) is a
  list with one pair per frame: the non-blank entry \<^verbatim>\<open>r[t, 0]\<close> first, the blank entry
  \<^verbatim>\<open>r[t, 1]\<close> second.
\<close>

definition logzero :: real where
  "logzero = - 10000000000"

text \<open>The loop \<^verbatim>\<open>for i in range(1, self.xlen)\<close> of \<^verbatim>\<open>initial_state\<close>; it runs on indices from 1.\<close>

fun initial_state_loop :: "nat \<Rightarrow> real list list \<Rightarrow> nat list \<Rightarrow> (real \<times> real) list \<Rightarrow>
    error + (real \<times> real) list" where
  "initial_state_loop blank log_probs [] r = Inr r"
| "initial_state_loop blank log_probs (i # is) r =
     (if i < length log_probs \<and> blank < length (log_probs ! i) \<and> i < length r then
        initial_state_loop blank log_probs is
          (r[i := (fst (r ! i), snd (r ! (i - 1)) + log_probs ! i ! blank)])
      else Inl IndexError)"

definition initial_state :: "nat \<Rightarrow> real list list \<Rightarrow> error + (real \<times> real) list" where
  "initial_state blank log_probs =
     (let xlen = length log_probs;
          r = replicate xlen (logzero, logzero)
      in if 0 < xlen \<and> blank < length (log_probs ! 0) then
           initial_state_loop blank log_probs [1..<xlen]
             (r[0 := (fst (r ! 0), log_probs ! 0 ! blank)])
         else Inl IndexError)"

text \<open>
  \<^verbatim>\<open>__call__\<close>.  The array \<^verbatim>\<open>r\<close> has one entry per frame, track and candidate; here
  it is a list with one pair of vectors per frame, \<^verbatim>\<open>r[t, 0]\<close> and \<^verbatim>\<open>r[t, 1]\<close>, each
  with one number per candidate.  \<^verbatim>\<open>np.ndarray\<close> allocates without initialising: the
  content of the fresh array is the argument \<open>mem\<close>.

  \<open>select_columns\<close> is \<^verbatim>\<open>xs = self.log_probs[:, cs]\<close>.
\<close>

definition select_columns :: "real list list \<Rightarrow> nat list \<Rightarrow> error + real list list" where
  "select_columns log_probs cs =
     (if list_all (\<lambda>row. list_all (\<lambda>c. c < length row) cs) log_probs
      then Inr (map (\<lambda>row. map (\<lambda>c. row ! c) cs) log_probs)
      else Inl IndexError)"

text \<open>
  \<^verbatim>\<open>log_phi\<close>.  In the first branch each column is assigned a vector that has one
  entry per row of \<^verbatim>\<open>r_prev\<close>: the assignment needs as many rows as frames, or one
  row, which is repeated.  In the second branch \<^verbatim>\<open>log_phi\<close> is the vector \<^verbatim>\<open>r_sum\<close>;
  its entry is added to every candidate, so each row holds it once per candidate.
\<close>

definition make_log_phi :: "nat \<Rightarrow> nat list \<Rightarrow> nat list \<Rightarrow> (real \<times> real) list \<Rightarrow>
    error + real list list" where
  "make_log_phi xlen hyp cs r_prev =
     (let r_sum = map (\<lambda>(nb, b). logaddexp nb b) r_prev;
          last_label = last hyp
      in if length hyp > 1 \<and> last_label \<in> set cs then
           (if length r_prev = xlen then
              Inr (map (\<lambda>t. map (\<lambda>c. if c \<noteq> last_label then r_sum ! t else snd (r_prev ! t)) cs)
                     [0..<xlen])
            else if length r_prev = 1 then
              Inr (map (\<lambda>t. map (\<lambda>c. if c \<noteq> last_label then r_sum ! 0 else snd (r_prev ! 0)) cs)
                     [0..<xlen])
            else Inl ValueError)
         else Inr (map (\<lambda>s. replicate (length cs) s) r_sum))"

text \<open>The loop \<^verbatim>\<open>for t in range(start, self.xlen)\<close>; its state is \<^verbatim>\<open>r\<close> and \<^verbatim>\<open>log_psi\<close>.\<close>

fun forward_loop :: "nat \<Rightarrow> real list list \<Rightarrow> real list list \<Rightarrow> real list list \<Rightarrow> nat \<Rightarrow>
    nat list \<Rightarrow> (real list \<times> real list) list \<times> real list \<Rightarrow>
    error + ((real list \<times> real list) list \<times> real list)" where
  "forward_loop blank log_probs xs log_phi n [] (r, log_psi) = Inr (r, log_psi)"
| "forward_loop blank log_probs xs log_phi n (t # ts) (r, log_psi) =
     (if t - 1 < length log_phi \<and> blank < length (log_probs ! t) then
        (let r0 = map (\<lambda>i. logaddexp (fst (r ! (t - 1)) ! i) (log_phi ! (t - 1) ! i) + xs ! t ! i)
                    [0..<n];
             r1 = map (\<lambda>i. logaddexp (fst (r ! (t - 1)) ! i) (snd (r ! (t - 1)) ! i)
                              + log_probs ! t ! blank)
                    [0..<n];
             log_psi' = map (\<lambda>i. logaddexp (log_psi ! i) (log_phi ! (t - 1) ! i + xs ! t ! i))
                          [0..<n]
         in forward_loop blank log_probs xs log_phi n ts (r[t := (r0, r1)], log_psi'))
      else Inl IndexError)"

text \<open>\<^verbatim>\<open>np.rollaxis(r, 2)\<close>: the candidate axis first.\<close>

definition rollaxis :: "nat \<Rightarrow> (real list \<times> real list) list \<Rightarrow> (real \<times> real) list list" where
  "rollaxis n r = map (\<lambda>i. map (\<lambda>(r0, r1). (r0 ! i, r1 ! i)) r) [0..<n]"

text \<open>
  The whole call.  An empty \<^verbatim>\<open>hyp\<close> raises at \<^verbatim>\<open>hyp[-1]\<close> at the latest.  When the
  loop does not run, \<^verbatim>\<open>log_psi\<close> is still a view of \<^verbatim>\<open>r[start - 1, 0]\<close>, and the
  assignment at the positions of \<^verbatim>\<open>eos\<close> writes to that row of \<^verbatim>\<open>r\<close> as well.
\<close>

definition prefix_score :: "nat \<Rightarrow> nat \<Rightarrow> real list list \<Rightarrow> (nat \<Rightarrow> nat \<Rightarrow> nat \<Rightarrow> real) \<Rightarrow>
    nat list \<Rightarrow> nat list \<Rightarrow> (real \<times> real) list \<Rightarrow>
    error + (real list \<times> (real \<times> real) list list)" where
  "prefix_score blank eos log_probs mem hyp cs r_prev =
     (let xlen = length log_probs;
          n = length cs;
          r = map (\<lambda>t. (map (mem t 0) [0..<n], map (mem t 1) [0..<n])) [0..<xlen]
      in case select_columns log_probs cs of
           Inl e \<Rightarrow> Inl e
         | Inr xs \<Rightarrow>
             if hyp = [] \<or> xlen = 0 \<or> (length hyp > 1 \<and> \<not> length hyp - 2 < xlen)
             then Inl IndexError
             else
               (let r = (if length hyp = 1 then r[0 := (xs ! 0, replicate n logzero)]
                         else r[length hyp - 2 := (replicate n logzero, replicate n logzero)]);
                    r_sum = map (\<lambda>(nb, b). logaddexp nb b) r_prev
                in case make_log_phi xlen hyp cs r_prev of
                     Inl e \<Rightarrow> Inl e
                   | Inr log_phi \<Rightarrow>
                       (let start = max (length hyp - 1) 1;
                            log_psi = fst (r ! (start - 1))
                        in case forward_loop blank log_probs xs log_phi n [start..<xlen] (r, log_psi) of
                             Inl e \<Rightarrow> Inl e
                           | Inr (r, log_psi) \<Rightarrow>
                               if eos \<in> set cs then
                                 (if r_prev = [] then Inl IndexError
                                  else
                                    (let log_psi = map (\<lambda>i. if cs ! i = eos then last r_sum
                                                             else log_psi ! i) [0..<n];
                                         r = (if [start..<xlen] = []
                                              then r[start - 1 := (log_psi, snd (r ! (start - 1)))]
                                              else r)
                                     in Inr (log_psi, rollaxis n r)))
                               else Inr (log_psi, rollaxis n r))))"

text \<open>
  The connecting term of the recursion as the specification words it, for a candidate
  label \<open>c\<close> after the prefix \<open>hyp\<close>: the blank entry of the previous state alone when \<open>c\<close>
  repeats the last label of the prefix, the log-sum-exp of both entries otherwise.
\<close>

definition connecting_term :: "nat list \<Rightarrow> (real \<times> real) list \<Rightarrow> nat \<Rightarrow> nat \<Rightarrow> real" where
  "connecting_term hyp r_prev c t =
     (if c = last hyp then snd (r_prev ! t)
      else logaddexp (fst (r_prev ! t)) (snd (r_prev ! t)))"


text \<open>The sum of the blank log-probabilities of the frames \<open>0, \<dots>, t\<close>.\<close>

definition blank_prefix_sum :: "nat \<Rightarrow> real list list \<Rightarrow> nat \<Rightarrow> real" where
  "blank_prefix_sum blank lp t = sum_list (map (\<lambda>row. row ! blank) (take (Suc t) lp))"


subsection \<open>Beam search: data\<close>

text \<open>
  An element of the beam is a Python dictionary.  The key \<^verbatim>\<open>'score'\<close> is absent from
  the initial element and present in every element built during a time step, so the
  field is optional; reading it where it is absent is a \<^verbatim>\<open>KeyError\<close>.  The states of
  the language model (\<^verbatim>\<open>clm_hxs\<close>, \<^verbatim>\<open>clm_cxs\<close>) are opaque values of type \<open>'st\<close>.
\<close>

record 'st hypothesis =
  hyp :: "nat list"
  score :: "real option"
  p_b :: real
  p_nb :: real
  clm_score :: real
  clm_hxs :: "'st option"
  clm_cxs :: "'st option"

text \<open>
  Modelled from the spec: the external language model (the classes \<^verbatim>\<open>RNNLM\<close>,
  \<^verbatim>\<open>GatedConvLM\<close>, \<^verbatim>\<open>TransformerLM\<close>) is not part of the decoder; the decoder consumes
  it as an opaque scorer.  \<open>lm_token_score m c hxs cxs\<close> is the value of
  \<^verbatim>\<open>F.log_softmax(lm.generate(clmout), dim=-1)[0, 0, c]\<close> for
  \<^verbatim>\<open>clmout, _ = lm.decode(lm.encode(c), (clm_hxs, clm_cxs))\<close>, and
  \<open>lm_sequence_score m ys\<close> is the value of
  \<^verbatim>\<open>F.log_softmax(lm.generate(clmout), dim=-1).sum()\<close> for
  \<^verbatim>\<open>clmout, _ = lm.decode(lm.encode(pad_list([ys], lm.pad)), None)\<close>.
\<close>

record 'st lang_model =
  lm_token_score :: "nat \<Rightarrow> 'st option \<Rightarrow> 'st option \<Rightarrow> real"
  lm_sequence_score :: "nat list \<Rightarrow> real"

text \<open>
  The attributes of the decoder that \<^verbatim>\<open>beam_search\<close> reads (\<^verbatim>\<open>self.eos\<close>,
  \<^verbatim>\<open>self.blank\<close>), the local \<^verbatim>\<open>vocab\<close> (the last dimension of \<^verbatim>\<open>eouts\<close>) and the
  keyword arguments of the call.  The attribute \<^verbatim>\<open>self.space\<close> is compared with the
  candidate label only to guard a \<^verbatim>\<open>pass\<close> statement and is left out.
\<close>

record 'st args =
  eos :: nat
  blank :: nat
  vocab :: nat
  beam_width :: int
  lm :: "'st lang_model option"
  lm_weight :: real
  length_penalty :: real
  lm_usage :: string

text \<open>
  Modelled from the spec: \<^verbatim>\<open>torch.topk(row, k, largest=True, sorted=True)\<close> belongs to
  the tensor library.  It returns the indices of the \<open>k\<close> largest entries, by descending
  value, the lowest index first among equal values; \<open>k\<close> outside \<open>0..length row\<close> is an
  error.
\<close>

definition sorted_desc :: "('a \<Rightarrow> real) \<Rightarrow> 'a list \<Rightarrow> 'a list" where
  "sorted_desc key xs = rev (sort_key key (rev xs))"

definition topk :: "int \<Rightarrow> real list \<Rightarrow> error + nat list" where
  "topk k row =
     (if k < 0 \<or> int (length row) < k then Inl RuntimeError
      else Inr (take (nat k) (sorted_desc (\<lambda>i. row ! i) [0..<length row])))"

text \<open>
  \<^verbatim>\<open>sorted(new_beam, key=lambda x: x['score'], reverse=True)\<close>: Python's sort is
  stable, also with \<^verbatim>\<open>reverse=True\<close>: elements of equal score keep the order they
  have in \<^verbatim>\<open>new_beam\<close>.
\<close>

definition sorted_by_score :: "'st hypothesis list \<Rightarrow> error + 'st hypothesis list" where
  "sorted_by_score new_beam =
     (if \<exists>x \<in> set new_beam. score x = None then Inl KeyError
      else Inr (sorted_desc (\<lambda>x. the (score x)) new_beam))"

text \<open>The slice \<^verbatim>\<open>xs[:n]\<close>; a negative \<open>n\<close> counts from the end.\<close>

definition py_take :: "int \<Rightarrow> 'a list \<Rightarrow> 'a list" where
  "py_take n xs = (if 0 \<le> n then take (nat n) xs else take (length xs - nat (- n)) xs)"

subsection \<open>Beam search: one time step\<close>

text \<open>
  Case 1 of the loop body: the hypothesis is not extended.  \<open>row\<close> is the frame
  \<^verbatim>\<open>log_probs[b, t]\<close>.
\<close>

definition not_extended :: "'st args \<Rightarrow> real list \<Rightarrow> 'st hypothesis \<Rightarrow> error + 'st hypothesis" where
  "not_extended a row h =
     (if blank a < length row then
        (let new_p_b = logaddexp (p_b h + row ! blank a) (p_nb h + row ! blank a) in
         if length (hyp h) > 1 then
           (if last (hyp h) < length row then
              (let new_p_nb = p_nb h + row ! last (hyp h) in
               Inr \<lparr>hyp = hyp h,
                    score = Some (logaddexp new_p_b new_p_nb + clm_score h * lm_weight a),
                    p_b = new_p_b, p_nb = new_p_nb, clm_score = clm_score h,
                    clm_hxs = clm_hxs h, clm_cxs = clm_cxs h\<rparr>)
            else Inl IndexError)
         else
           (let new_p_nb = LOG_0 in
            Inr \<lparr>hyp = hyp h,
                 score = Some (logaddexp new_p_b new_p_nb + clm_score h * lm_weight a),
                 p_b = new_p_b, p_nb = new_p_nb, clm_score = clm_score h,
                 clm_hxs = clm_hxs h, clm_cxs = clm_cxs h\<rparr>))
      else Inl IndexError)"

text \<open>
  Case 2: the loop \<^verbatim>\<open>for c in tensor2np(indices_topk)[0]\<close> over the candidate labels.
  The variable \<^verbatim>\<open>clm_score\<close> is assigned inside the loop and lives on into the next
  iteration, so it is an argument of the recursion.  The blank label is skipped.  The
  argument \<^verbatim>\<open>length_penalty\<close> of the call is read nowhere.
\<close>

fun extended :: "'st args \<Rightarrow> real list \<Rightarrow> 'st hypothesis \<Rightarrow> nat list \<Rightarrow> real \<Rightarrow>
    error + 'st hypothesis list" where
  "extended a row h [] clm = Inr []"
| "extended a row h (c # cs) clm =
     (if c < length row then
        (let p_t = row ! c in
         if c = blank a then extended a row h cs clm
         else
           (let new_p_b = LOG_0;
                new_p_nb = (if length (hyp h) > 1 \<and> c = last (hyp h) then p_b h + p_t
                            else logaddexp (p_b h + p_t) (p_nb h + p_t));
                clm' = (case lm a of
                          None \<Rightarrow> clm
                        | Some m \<Rightarrow>
                            if lm_weight a > 0 \<and> lm_usage a = ''shallow_fusion''
                            then lm_token_score m c (clm_hxs h) (clm_cxs h) else clm)
            in case extended a row h cs clm' of
                 Inl e \<Rightarrow> Inl e
               | Inr rest \<Rightarrow>
                   Inr (\<lparr>hyp = hyp h @ [c],
                         score = Some (logaddexp new_p_b new_p_nb + clm' * lm_weight a),
                         p_b = new_p_b, p_nb = new_p_nb, clm_score = clm',
                         clm_hxs = clm_hxs h, clm_cxs = clm_cxs h\<rparr> # rest)))
      else Inl IndexError)"

text \<open>The loop \<^verbatim>\<open>for i_beam in range(len(beam))\<close>, which fills \<^verbatim>\<open>new_beam\<close>.\<close>

fun expand_beam :: "'st args \<Rightarrow> real list \<Rightarrow> nat list \<Rightarrow> 'st hypothesis list \<Rightarrow>
    error + 'st hypothesis list" where
  "expand_beam a row indices_topk [] = Inr []"
| "expand_beam a row indices_topk (h # beam) =
     (case not_extended a row h of
        Inl e \<Rightarrow> Inl e
      | Inr u \<Rightarrow>
          (case extended a row h indices_topk (clm_score h) of
             Inl e \<Rightarrow> Inl e
           | Inr es \<Rightarrow>
               (case expand_beam a row indices_topk beam of
                  Inl e \<Rightarrow> Inl e
                | Inr rest \<Rightarrow> Inr (u # es @ rest))))"

text \<open>The pruning at the end of the time step.\<close>

definition pruning :: "int \<Rightarrow> 'st hypothesis list \<Rightarrow> error + 'st hypothesis list" where
  "pruning bw new_beam =
     (case sorted_by_score new_beam of
        Inl e \<Rightarrow> Inl e
      | Inr sorted_beam \<Rightarrow> Inr (py_take bw sorted_beam))"

text \<open>The body of the loop \<^verbatim>\<open>for t in range(elens[b])\<close>.\<close>

definition time_step :: "'st args \<Rightarrow> real list list \<Rightarrow> nat \<Rightarrow> 'st hypothesis list \<Rightarrow>
    error + 'st hypothesis list" where
  "time_step a log_probs t beam =
     (if t < length log_probs then
        (case topk (min (beam_width a) (int (vocab a))) (log_probs ! t) of
           Inl e \<Rightarrow> Inl e
         | Inr indices_topk \<Rightarrow>
             (case expand_beam a (log_probs ! t) indices_topk beam of
                Inl e \<Rightarrow> Inl e
              | Inr new_beam \<Rightarrow> pruning (beam_width a) new_beam))
      else Inl IndexError)"

fun time_loop :: "'st args \<Rightarrow> real list list \<Rightarrow> nat list \<Rightarrow> 'st hypothesis list \<Rightarrow>
    error + 'st hypothesis list" where
  "time_loop a log_probs [] beam = Inr beam"
| "time_loop a log_probs (t # ts) beam =
     (case time_step a log_probs t beam of
        Inl e \<Rightarrow> Inl e
      | Inr beam' \<Rightarrow> time_loop a log_probs ts beam')"

subsection \<open>Beam search: one utterance\<close>

definition initial_beam :: "'st args \<Rightarrow> 'st hypothesis list" where
  "initial_beam a =
     [\<lparr>hyp = [eos a], score = None, p_b = LOG_1, p_nb = LOG_0, clm_score = LOG_1,
       clm_hxs = None, clm_cxs = None\<rparr>]"

text \<open>
  The rescoring pass after the loop.  The dictionaries it builds have the keys
  \<^verbatim>\<open>'hyp'\<close> and \<^verbatim>\<open>'score'\<close> only; they are pairs here.  When the pass does not run,
  the beam of the loop is final.
\<close>

definition rescoring :: "'st args \<Rightarrow> 'st hypothesis list \<Rightarrow> (nat list \<times> real option) list" where
  "rescoring a beam =
     (case lm a of
        None \<Rightarrow> map (\<lambda>h. (hyp h, score h)) beam
      | Some m \<Rightarrow>
          if lm_weight a > 0 \<and> lm_usage a = ''rescoring'' then
            map (\<lambda>(ys, s). (ys, Some s))
              (sorted_desc snd
                 (map (\<lambda>h. (hyp h,
                            logaddexp (p_b h) (p_nb h)
                              + lm_sequence_score m ([eos a] @ hyp h) * lm_weight a))
                    beam))
          else map (\<lambda>h. (hyp h, score h)) beam)"

text \<open>The final beam of one utterance, as pairs of label sequence and ranking score.\<close>

definition final_beam :: "'st args \<Rightarrow> real list list \<Rightarrow> nat \<Rightarrow>
    error + (nat list \<times> real option) list" where
  "final_beam a log_probs elen =
     (case time_loop a log_probs [0..<elen] (initial_beam a) of
        Inl e \<Rightarrow> Inl e
      | Inr beam \<Rightarrow> Inr (rescoring a beam))"

text \<open>\<^verbatim>\<open>best_hyp = beam[0]['hyp'][1:]\<close>.\<close>

definition beam_search_utt :: "'st args \<Rightarrow> real list list \<Rightarrow> nat \<Rightarrow> error + nat list" where
  "beam_search_utt a log_probs elen =
     (case final_beam a log_probs elen of
        Inl e \<Rightarrow> Inl e
      | Inr beam \<Rightarrow>
          (case beam of
             [] \<Rightarrow> Inl IndexError
           | (ys, s) # _ \<Rightarrow> Inr (drop 1 ys)))"

text \<open>The loop over the batch.\<close>

fun beam_search :: "'st args \<Rightarrow> (real list list \<times> nat) list \<Rightarrow> error + nat list list" where
  "beam_search a [] = Inr []"
| "beam_search a ((log_probs, elen) # rest) =
     (case beam_search_utt a log_probs elen of
        Inl e \<Rightarrow> Inl e
      | Inr best_hyp \<Rightarrow> (case beam_search a rest of
                          Inl e \<Rightarrow> Inl e
                        | Inr best_hyps \<Rightarrow> Inr (best_hyp # best_hyps)))"

text \<open>A frame has one dominant label when its maximum occurs exactly once.\<close>

definition one_dominant :: "real list \<Rightarrow> bool" where
  "one_dominant row = (row \<noteq> [] \<and> length (filter (\<lambda>x. x = Max (set row)) row) = 1)"

text \<open>
  Example table for the greedy decoder: three frames over the labels blank (0), 1 and
  2, with dominant labels 1, blank, 1.
\<close>

definition exG :: "real list list" where
  "exG = [[ln (1/10), ln (4/5), ln (1/10)],
          [ln (7/10), ln (1/5), ln (1/10)],
          [ln (1/10), ln (4/5), ln (1/10)]]"

text \<open>A state of three frames for the examples of the prefix scorer.\<close>

definition exR :: "(real \<times> real) list" where
  "exR = [(- 3, - 4), (- 2, - 5), (- 1, - 6)]"

subsection \<open>Ranking as the specification words it\<close>

text \<open>
  The order the specification gives to the beam: a hypothesis precedes another when its
  ranking score is larger; of two with equal scores, when its label sequence is longer;
  of two with equal scores and lengths, when its label sequence is lexicographically
  lower.
\<close>

definition spec_precedes :: "'st hypothesis \<Rightarrow> 'st hypothesis \<Rightarrow> bool" where
  "spec_precedes h1 h2 =
     (the (score h2) < the (score h1) \<or>
      (score h1 = score h2 \<and>
        (length (hyp h2) < length (hyp h1) \<or>
         (length (hyp h1) = length (hyp h2) \<and> lexordp (<) (hyp h1) (hyp h2)))))"

subsection \<open>Example inputs\<close>

text \<open>The probability that the constant \<open>LOG_0\<close> stands for.\<close>

definition zero_prob :: real where "zero_prob = exp LOG_0"

text \<open>
  A decoder over the labels blank (0), 1 and \<^verbatim>\<open>eos\<close> (2) with beam width 2 and no
  language model; the weight, the length penalty and the usage are left open.
\<close>

definition exArgs :: "real \<Rightarrow> real \<Rightarrow> string \<Rightarrow> unit args" where
  "exArgs w p u = \<lparr>eos = 2, blank = 0, vocab = 3, beam_width = 2, lm = None, lm_weight = w,
          length_penalty = p, lm_usage = u\<rparr>"

text \<open>
  A table of two frames with probabilities (1/2, 2/5, 1/10) and (3/20, 4/5, 1/20), and
  the beams of \<open>exArgs\<close> after its first and second frame.
\<close>

definition row0 :: "real list" where "row0 = [ln (1/2), ln (2/5), ln (1/10)]"

definition row1 :: "real list" where "row1 = [ln (3/20), ln (4/5), ln (1/20)]"

definition exT :: "real list list" where
  "exT = [row0, row1]"

definition beam1 :: "unit hypothesis list" where
  "beam1 =
     [\<lparr>hyp = [2], score = Some (ln (3 * zero_prob / 2 + 1 / 2)),
       p_b = ln (1 / 2 + zero_prob / 2), p_nb = ln zero_prob,
       clm_score = 0, clm_hxs = None, clm_cxs = None\<rparr>,
      \<lparr>hyp = [2, 1], score = Some (ln (7 * zero_prob / 5 + 2 / 5)),
       p_b = ln zero_prob, p_nb = ln (2 / 5 + zero_prob * 2 / 5),
       clm_score = 0, clm_hxs = None, clm_cxs = None\<rparr>]"

definition beam2 :: "unit hypothesis list" where
  "beam2 =
     [\<lparr>hyp = [2, 1], score = Some (ln (11 * zero_prob / 5 + 2 / 5)),
       p_b = ln zero_prob, p_nb = ln (6 * zero_prob / 5 + 2 / 5),
       clm_score = 0, clm_hxs = None, clm_cxs = None\<rparr>,
      \<lparr>hyp = [2, 1], score = Some (ln (19 / 50 + 53 * zero_prob / 100)),
       p_b = ln (21 * zero_prob / 100 + 3 / 50), p_nb = ln (8 / 25 + 8 * zero_prob / 25),
       clm_score = 0, clm_hxs = None, clm_cxs = None\<rparr>]"

text \<open>
  A table of one frame in which blank and label 1 have the same probability 2/5, and
  the beam of \<open>exArgs\<close> after that frame.
\<close>

definition row_tie :: "real list" where "row_tie = [ln (2/5), ln (2/5), ln (1/5)]"

definition exTie :: "real list list" where "exTie = [row_tie]"

definition beam_tie :: "unit hypothesis list" where
  "beam_tie =
     [\<lparr>hyp = [2], score = Some (ln (7 * zero_prob / 5 + 2 / 5)),
       p_b = ln (2 / 5 + zero_prob * 2 / 5), p_nb = ln zero_prob,
       clm_score = 0, clm_hxs = None, clm_cxs = None\<rparr>,
      \<lparr>hyp = [2, 1], score = Some (ln (7 * zero_prob / 5 + 2 / 5)),
       p_b = ln zero_prob, p_nb = ln (2 / 5 + zero_prob * 2 / 5),
       clm_score = 0, clm_hxs = None, clm_cxs = None\<rparr>]"

section \<open>Properties of the greedy decoder\<close>

lemma argmax_scan_inv:
  assumes "length pre = i" "best < i" "pre ! best = bv"
    "\<forall>j < i. pre ! j \<le> bv" "\<forall>j < best. pre ! j < bv"
  shows "argmax_scan xs i best bv < length (pre @ xs) \<and>
         (\<forall>j < length (pre @ xs). (pre @ xs) ! j \<le> (pre @ xs) ! argmax_scan xs i best bv) \<and>
         (\<forall>j < argmax_scan xs i best bv. (pre @ xs) ! j < (pre @ xs) ! argmax_scan xs i best bv)"
  using assms
proof (induction xs arbitrary: pre i best bv)
  case Nil
  then show ?case by simp
next
  case (Cons x xs)
  show ?case
  proof (cases "bv < x")
    case True
    have "argmax_scan xs (Suc i) i x < length ((pre @ [x]) @ xs) \<and>
         (\<forall>j < length ((pre @ [x]) @ xs). ((pre @ [x]) @ xs) ! j \<le> ((pre @ [x]) @ xs) ! argmax_scan xs (Suc i) i x) \<and>
         (\<forall>j < argmax_scan xs (Suc i) i x. ((pre @ [x]) @ xs) ! j < ((pre @ [x]) @ xs) ! argmax_scan xs (Suc i) i x)"
    proof (rule Cons.IH)
      show "length (pre @ [x]) = Suc i" using Cons.prems by simp
      show "i < Suc i" by simp
      show "(pre @ [x]) ! i = x" using Cons.prems by (simp add: nth_append)
      show "\<forall>j<Suc i. (pre @ [x]) ! j \<le> x" using Cons.prems True
        by (auto simp: nth_append less_Suc_eq intro: less_imp_le order.trans)
      show "\<forall>j<i. (pre @ [x]) ! j < x" using Cons.prems True
        by (auto simp: nth_append intro: le_less_trans)
    qed
    with True show ?thesis by simp
  next
    case False
    have "argmax_scan xs (Suc i) best bv < length ((pre @ [x]) @ xs) \<and>
         (\<forall>j < length ((pre @ [x]) @ xs). ((pre @ [x]) @ xs) ! j \<le> ((pre @ [x]) @ xs) ! argmax_scan xs (Suc i) best bv) \<and>
         (\<forall>j < argmax_scan xs (Suc i) best bv. ((pre @ [x]) @ xs) ! j < ((pre @ [x]) @ xs) ! argmax_scan xs (Suc i) best bv)"
    proof (rule Cons.IH)
      show "length (pre @ [x]) = Suc i" using Cons.prems by simp
      show "best < Suc i" using Cons.prems by simp
      show "(pre @ [x]) ! best = bv" using Cons.prems by (simp add: nth_append)
      show "\<forall>j<Suc i. (pre @ [x]) ! j \<le> bv" using Cons.prems False
        by (auto simp: nth_append less_Suc_eq)
      show "\<forall>j<best. (pre @ [x]) ! j < bv" using Cons.prems
        by (auto simp: nth_append)
    qed
    with False show ?thesis by simp
  qed
qed

lemma argmax_first_max:
  assumes "row \<noteq> []"
  obtains a where "argmax row = Inr a" "a < length row"
    "\<forall>j < length row. row ! j \<le> row ! a" "\<forall>j < a. row ! j < row ! a"
proof -
  from assms obtain x xs where row: "row = x # xs" by (cases row) auto
  have "argmax_scan xs 1 0 x < length ([x] @ xs) \<and>
         (\<forall>j < length ([x] @ xs). ([x] @ xs) ! j \<le> ([x] @ xs) ! argmax_scan xs 1 0 x) \<and>
         (\<forall>j < argmax_scan xs 1 0 x. ([x] @ xs) ! j < ([x] @ xs) ! argmax_scan xs 1 0 x)"
    by (rule argmax_scan_inv) auto
  then show ?thesis using that[of "argmax_scan xs 1 0 x"] row by (simp add: argmax_def)
qed

lemma spec_best_label_eq:
  assumes "a < length row" "\<forall>j < length row. row ! j \<le> row ! a" "\<forall>j < a. row ! j < row ! a"
  shows "spec_best_label row = a"
  unfolding spec_best_label_def
proof (rule Min_eqI)
  show "finite {i. i < length row \<and> (\<forall>j<length row. row ! j \<le> row ! i)}" by simp
  show "a \<in> {i. i < length row \<and> (\<forall>j<length row. row ! j \<le> row ! i)}" using assms by simp
  fix y assume "y \<in> {i. i < length row \<and> (\<forall>j<length row. row ! j \<le> row ! i)}"
  then have y: "y < length row" "row ! a \<le> row ! y" using assms(1) by auto
  show "a \<le> y"
  proof (rule ccontr)
    assume "\<not> a \<le> y"
    then have "y < a" by simp
    with assms(3) have "row ! y < row ! a" by simp
    with y show False by simp
  qed
qed

lemma argmax_spec: "row \<noteq> [] \<Longrightarrow> argmax row = Inr (spec_best_label row)"
  by (metis argmax_first_max spec_best_label_eq)

lemma groupby_keys: "map fst (groupby xs) = remdups_adj xs"
proof (induction xs rule: groupby.induct)
  case 1
  then show ?case by simp
next
  case (2 x xs)
  have "remdups_adj (x # xs) = x # remdups_adj (dropWhile (\<lambda>y. y = x) xs)"
    by (induction xs) auto
  with 2 show ?case by simp
qed

lemma pick_argmax_spec:
  assumes "\<forall>t \<in> set ts. t < length lp \<and> lp ! t \<noteq> []"
  shows "pick_argmax lp ts = Inr (map (\<lambda>t. spec_best_label (lp ! t)) ts)"
  using assms by (induction ts) (auto simp: argmax_spec)


lemma greedy_utt_shape:
  assumes "greedy_utt bl lp time = Inr ys"
  obtains indices where "pick_argmax lp [0..<time] = Inr indices"
    and "ys = filter (\<lambda>x. x \<noteq> bl) (remdups_adj indices)"
  using assms by (auto simp: greedy_utt_def groupby_keys split: sum.splits)

lemma distinct_adj_filter_id:
  assumes "\<forall>x \<in> set xs. P x"
  shows "filter P xs = xs"
  using assms by (induction xs) auto

lemma exG_eval: "greedy_utt 0 exG 3 = Inr [1, 1]"
  by (simp add: greedy_utt_def argmax_def upt_rec exG_def)

lemma pick_argmax_frames:
  assumes "pick_argmax lp ts = Inr path"
  shows "\<forall>t \<in> set ts. t < length lp \<and> lp ! t \<noteq> []"
  using assms
proof (induction ts arbitrary: path)
  case Nil
  then show ?case by simp
next
  case (Cons t ts)
  from Cons.prems obtain a rest where t: "t < length lp" and a: "argmax (lp ! t) = Inr a"
    and rest: "pick_argmax lp ts = Inr rest"
    by (auto split: if_splits sum.splits)
  from a have "lp ! t \<noteq> []" by (auto simp: argmax_def)
  with t Cons.IH [OF rest] show ?case by simp
qed

lemma greedy_utt_path:
  assumes "greedy_utt bl lp time = Inr ys"
  shows "time \<le> length lp \<and>
         ys = filter (\<lambda>x. x \<noteq> bl) (remdups_adj (map spec_best_label (take time lp)))"
proof -
  from assms obtain path where path: "pick_argmax lp [0..<time] = Inr path"
    and ys: "ys = filter (\<lambda>x. x \<noteq> bl) (remdups_adj path)"
    by (rule greedy_utt_shape)
  from pick_argmax_frames [OF path] have fr: "\<forall>t \<in> set [0..<time]. t < length lp \<and> lp ! t \<noteq> []" .
  have le: "time \<le> length lp"
  proof (cases time)
    case 0
    then show ?thesis by simp
  next
    case (Suc n)
    then have "n \<in> set [0..<time]" by simp
    with fr have "n < length lp" by blast
    with Suc show ?thesis by simp
  qed
  from pick_argmax_spec [OF fr] path
  have "path = map (\<lambda>t. spec_best_label (lp ! t)) [0..<time]" by simp
  also have "\<dots> = map spec_best_label (take time lp)"
    using le by (auto intro!: nth_equalityI)
  finally show ?thesis using le ys by simp
qed

lemma blank_run_single:
  assumes "distinct_adj (x # w @ x # rest)" and "\<forall>u \<in> set w. u = b"
  shows "w = [b]"
proof (cases w)
  case Nil
  with assms(1) show ?thesis by (simp add: distinct_adj_Cons)
next
  case (Cons u w')
  show ?thesis
  proof (cases w')
    case Nil
    with Cons assms(2) show ?thesis by simp
  next
    case (Cons v w'')
    with \<open>w = u # w'\<close> assms(2) have "u = b" "v = b" by simp_all
    with Cons \<open>w = u # w'\<close> assms(1) show ?thesis by (simp add: distinct_adj_Cons)
  qed
qed

lemma distinct_adj_suffix: "distinct_adj (xs @ ys) \<Longrightarrow> distinct_adj ys"
  by (simp add: distinct_adj_append_iff)

lemma filter_eq_appendD:
  assumes "filter P xs = ys @ zs"
  shows "\<exists>us vs. xs = us @ vs \<and> filter P us = ys \<and> filter P vs = zs"
  using assms
proof (induction ys arbitrary: xs)
  case Nil
  then have "xs = [] @ xs \<and> filter P [] = [] \<and> filter P xs = zs" by simp
  then show ?case by blast
next
  case (Cons y ys)
  then have "filter P xs = y # (ys @ zs)" by simp
  then obtain u v where xs: "xs = u @ y # v" and u: "\<forall>a \<in> set u. \<not> P a" and y: "P y"
    and v: "filter P v = ys @ zs"
    by (auto simp: filter_eq_Cons_iff)
  from Cons.IH [OF v] obtain us vs where v': "v = us @ vs" "filter P us = ys" "filter P vs = zs"
    by blast
  have "filter P u = []" using u by (simp add: filter_empty_conv)
  then have "xs = (u @ y # us) @ vs \<and> filter P (u @ y # us) = y # ys \<and> filter P vs = zs"
    using xs y v' by simp
  then show ?case by blast
qed

lemma adjacent_after_filter:
  assumes "distinct_adj c"
  shows "(\<exists>us vs. filter (\<lambda>y. y \<noteq> b) c = us @ [x, x] @ vs) \<longleftrightarrow>
         (\<exists>us vs. c = us @ [x, b, x] @ vs)"
proof
  assume "\<exists>us vs. c = us @ [x, b, x] @ vs"
  then obtain us vs where c: "c = us @ [x, b, x] @ vs" by blast
  with assms have "distinct_adj ([x, b, x] @ vs)" by (simp add: distinct_adj_append_iff)
  then have "x \<noteq> b" by (simp add: distinct_adj_Cons)
  with c have "filter (\<lambda>y. y \<noteq> b) c
      = filter (\<lambda>y. y \<noteq> b) us @ [x, x] @ filter (\<lambda>y. y \<noteq> b) vs" by simp
  then show "\<exists>us vs. filter (\<lambda>y. y \<noteq> b) c = us @ [x, x] @ vs" by blast
next
  assume "\<exists>us vs. filter (\<lambda>y. y \<noteq> b) c = us @ [x, x] @ vs"
  then obtain us vs where f: "filter (\<lambda>y. y \<noteq> b) c = us @ x # x # vs" by auto
  then obtain c1 c2 where c: "c = c1 @ c2" and c2: "filter (\<lambda>y. y \<noteq> b) c2 = x # x # vs"
    using filter_eq_appendD [of "\<lambda>y. y \<noteq> b" c us "x # x # vs"] by auto
  from filter_eq_ConsD [OF c2] obtain w1 c3 where c2': "c2 = w1 @ x # c3"
    and c3: "x # vs = filter (\<lambda>y. y \<noteq> b) c3"
    by blast
  from filter_eq_ConsD [OF c3 [symmetric]] obtain w2 c4 where c3': "c3 = w2 @ x # c4"
    and w2': "\<forall>u \<in> set w2. \<not> u \<noteq> b"
    by blast
  from w2' have w2: "\<forall>u \<in> set w2. u = b" by simp
  have "c = (c1 @ w1) @ (x # w2 @ x # c4)" using c c2' c3' by simp
  with assms have "distinct_adj (x # w2 @ x # c4)" using distinct_adj_suffix by metis
  from blank_run_single [OF this w2] have "w2 = [b]" .
  then have "c = (c1 @ w1) @ [x, b, x] @ c4" using c c2' c3' by simp
  then show "\<exists>us vs. c = us @ [x, b, x] @ vs" by blast
qed

lemma exG_path: "remdups_adj (map spec_best_label (take 3 exG)) = [1, 0, 1]"
proof -
  have "argmax [ln (1/10), ln (4/5), ln (1/10)] = Inr 1"
    and "argmax [ln (7/10), ln (1/5), ln (1/10)] = Inr 0"
    by (simp_all add: argmax_def)
  then have "spec_best_label [ln (1/10), ln (4/5), ln (1/10)] = 1"
    and "spec_best_label [ln (7/10), ln (1/5), ln (1/10)] = 0"
    using argmax_spec [of "[ln (1/10), ln (4/5), ln (1/10)]"]
      argmax_spec [of "[ln (7/10), ln (1/5), ln (1/10)]"] by simp_all
  then show ?thesis by (simp add: exG_def)
qed

text \<open>
  C7.  For a table with at least \<open>time\<close> frames, none of them empty,
  \<^verbatim>\<open>CTC.greedy\<close> returns what the specification describes: the label of maximum
  log-probability of each of the first \<open>time\<close> frames (the lowest index among equal
  maxima), runs of repeated labels collapsed to one, all blanks removed.  The result
  is a function of the table, the frame count and the blank index alone.
\<close>

theorem greedy_utt_refines_spec:
  assumes "time \<le> length lp" and "list_all (\<lambda>row. row \<noteq> []) (take time lp)"
  shows "greedy_utt bl lp time = Inr (spec_greedy bl (take time lp))"
proof -
  have "\<forall>t \<in> set [0..<time]. t < length lp \<and> lp ! t \<noteq> []"
    using assms by (auto simp: list_all_iff in_set_conv_nth)
  then have "pick_argmax lp [0..<time] = Inr (map (\<lambda>t. spec_best_label (lp ! t)) [0..<time])"
    by (rule pick_argmax_spec)
  moreover have "map (\<lambda>t. spec_best_label (lp ! t)) [0..<time] = map spec_best_label (take time lp)"
    using assms(1) by (auto intro!: nth_equalityI)
  ultimately show ?thesis
    by (simp add: greedy_utt_def spec_greedy_def groupby_keys)
qed

theorem greedy_utt_refines_spec_witness:
  "greedy_utt 0 exG 3 = Inr (spec_greedy 0 (take 3 exG)) \<and> spec_greedy 0 (take 3 exG) = [1, 1]"
proof -
  have "greedy_utt 0 exG 3 = Inr (spec_greedy 0 (take 3 exG))"
    by (rule greedy_utt_refines_spec) (simp_all add: exG_def)
  then show ?thesis using exG_eval by simp
qed

text \<open>
  C8 as stated fails: every frame of \<open>exG\<close> has one dominant label, and the decoder
  returns the label 1 twice in a row, because a blank frame separates the two.
\<close>

theorem greedy_adjacent_counterexample:
  "list_all one_dominant exG \<and> greedy_utt 0 exG 3 = Inr [1, 1] \<and> \<not> distinct_adj [1, 1 :: nat]"
proof -
  have "list_all one_dominant exG"
    by (simp add: exG_def one_dominant_def)
  then show ?thesis using exG_eval by simp
qed

text \<open>
  C8, amended.  Whatever the table, a sequence \<open>ys\<close> returned by the greedy decoder is the
  arg-max path of the first \<open>time\<close> frames (per frame the label of maximum
  log-probability, the lowest index among equals), collapsed and with the blanks
  removed.  It contains no blank label.  A label \<open>x\<close> occurs twice in a row in \<open>ys\<close>
  exactly when the collapsed arg-max path contains \<open>x\<close>, blank, \<open>x\<close> in a row, that is,
  when two runs of \<open>x\<close> are separated by blank frames only; in particular \<open>ys\<close> has no two
  adjacent equal labels when the arg-max path contains no blank.
\<close>

theorem greedy_utt_no_blank:
  assumes "greedy_utt bl lp time = Inr ys"
  shows "time \<le> length lp \<and>
         ys = filter (\<lambda>x. x \<noteq> bl) (remdups_adj (map spec_best_label (take time lp))) \<and>
         bl \<notin> set ys \<and>
         (\<forall>x. (\<exists>us vs. ys = us @ [x, x] @ vs) \<longleftrightarrow>
              (\<exists>us vs. remdups_adj (map spec_best_label (take time lp)) = us @ [x, bl, x] @ vs)) \<and>
         (bl \<notin> set (map spec_best_label (take time lp)) \<longrightarrow> distinct_adj ys)"
proof -
  let ?c = "remdups_adj (map spec_best_label (take time lp))"
  from greedy_utt_path [OF assms] have le: "time \<le> length lp"
    and ys: "ys = filter (\<lambda>x. x \<noteq> bl) ?c" by simp_all
  have no_blank: "bl \<notin> set ys" using ys by simp
  have adj: "\<forall>x. (\<exists>us vs. ys = us @ [x, x] @ vs) \<longleftrightarrow> (\<exists>us vs. ?c = us @ [x, bl, x] @ vs)"
    unfolding ys using adjacent_after_filter [of ?c bl] by simp
  have "bl \<notin> set (map spec_best_label (take time lp)) \<longrightarrow> distinct_adj ys"
  proof
    assume "bl \<notin> set (map spec_best_label (take time lp))"
    then have "bl \<notin> set ?c" by simp
    then have "filter (\<lambda>x. x \<noteq> bl) ?c = ?c"
      by (intro distinct_adj_filter_id) auto
    then show "distinct_adj ys" using ys by simp
  qed
  with le ys no_blank adj show ?thesis by blast
qed

theorem greedy_utt_no_blank_witness:
  "greedy_utt 0 exG 3 = Inr [1, 1] \<and>
   remdups_adj (map spec_best_label (take 3 exG)) = [1, 0, 1] \<and>
   (\<exists>us vs. [1, 1 :: nat] = us @ [1, 1] @ vs)"
proof -
  from greedy_utt_no_blank [OF exG_eval]
  have adj: "(\<exists>us vs. [1, 1 :: nat] = us @ [1, 1] @ vs) \<longleftrightarrow>
              (\<exists>us vs. remdups_adj (map spec_best_label (take 3 exG)) = us @ [1, 0, 1] @ vs)"
    by blast
  have "remdups_adj (map spec_best_label (take 3 exG)) = [] @ [1, 0, 1] @ []"
    using exG_path by simp
  then have "\<exists>us vs. remdups_adj (map spec_best_label (take 3 exG)) = us @ [1, 0, 1] @ vs"
    by blast
  with adj have "\<exists>us vs. [1, 1 :: nat] = us @ [1, 1] @ vs" by blast
  with exG_eval exG_path show ?thesis by blast
qed

section \<open>Properties of the prefix scorer\<close>

lemma blank_prefix_sum_Suc:
  "Suc t < length lp \<Longrightarrow>
   blank_prefix_sum bl lp (Suc t) = blank_prefix_sum bl lp t + lp ! Suc t ! bl"
  by (simp add: blank_prefix_sum_def take_Suc_conv_app_nth [of "Suc t"])

lemma initial_state_loop_inv:
  assumes "length r = length lp" "1 \<le> k" "k \<le> length lp"
    and "\<forall>t < k. r ! t = (logzero, blank_prefix_sum bl lp t)"
    and "\<forall>t. k \<le> t \<and> t < length lp \<longrightarrow> r ! t = (logzero, logzero)"
    and "\<forall>i < length lp. bl < length (lp ! i)"
  shows "\<exists>r'. initial_state_loop bl lp [k..<length lp] r = Inr r' \<and> length r' = length lp \<and>
           (\<forall>t < length lp. r' ! t = (logzero, blank_prefix_sum bl lp t))"
  using assms
proof (induction "length lp - k" arbitrary: k r)
  case 0
  then have "k = length lp" by simp
  with 0 show ?case by simp
next
  case (Suc m)
  then have k: "k < length lp" by simp
  let ?r = "r[k := (fst (r ! k), snd (r ! (k - 1)) + lp ! k ! bl)]"
  have upt: "[k..<length lp] = k # [Suc k..<length lp]" using k by (simp add: upt_conv_Cons)
  have rk: "r ! k = (logzero, logzero)" using Suc.prems k by simp
  have rk1: "r ! (k - 1) = (logzero, blank_prefix_sum bl lp (k - 1))" using Suc.prems by simp
  have new: "?r ! k = (logzero, blank_prefix_sum bl lp k)"
    using blank_prefix_sum_Suc [of "k - 1" lp bl] k Suc.prems(1,2) rk rk1 by simp
  have "\<exists>r'. initial_state_loop bl lp [Suc k..<length lp] ?r = Inr r' \<and> length r' = length lp \<and>
           (\<forall>t < length lp. r' ! t = (logzero, blank_prefix_sum bl lp t))"
  proof (rule Suc.hyps(1))
    show "m = length lp - Suc k" using Suc.hyps(2) by simp
    show "length ?r = length lp" using Suc.prems by simp
    show "1 \<le> Suc k" by simp
    show "Suc k \<le> length lp" using k by simp
    show "\<forall>t<Suc k. ?r ! t = (logzero, blank_prefix_sum bl lp t)"
      using Suc.prems(4) new by (auto simp: less_Suc_eq nth_list_update)
    show "\<forall>t. Suc k \<le> t \<and> t < length lp \<longrightarrow> ?r ! t = (logzero, logzero)"
      using Suc.prems(5) by (auto simp: nth_list_update)
    show "\<forall>i<length lp. bl < length (lp ! i)" by (rule Suc.prems(6))
  qed
  then show ?case using upt k Suc.prems(1,6) by simp
qed

lemma initial_state_ok:
  assumes "lp \<noteq> []" and "list_all (\<lambda>row. bl < length row) lp"
  shows "\<exists>r. initial_state bl lp = Inr r \<and> length r = length lp \<and>
           (\<forall>t < length lp. r ! t = (logzero, blank_prefix_sum bl lp t))"
proof -
  let ?r = "(replicate (length lp) (logzero, logzero))[0 := (logzero, lp ! 0 ! bl)]"
  have bl: "\<forall>i < length lp. bl < length (lp ! i)"
    using assms(2) by (simp add: list_all_length)
  have len: "0 < length lp" using assms(1) by simp
  have "\<exists>r'. initial_state_loop bl lp [1..<length lp] ?r = Inr r' \<and> length r' = length lp \<and>
           (\<forall>t < length lp. r' ! t = (logzero, blank_prefix_sum bl lp t))"
  proof (rule initial_state_loop_inv)
    show "length ?r = length lp" by simp
    show "1 \<le> (1::nat)" by simp
    show "1 \<le> length lp" using len by (simp add: Suc_le_eq)
    show "\<forall>t<1. ?r ! t = (logzero, blank_prefix_sum bl lp t)"
      using len by (simp add: blank_prefix_sum_def take_Suc_conv_app_nth)
    show "\<forall>t. 1 \<le> t \<and> t < length lp \<longrightarrow> ?r ! t = (logzero, logzero)" by auto
    show "\<forall>i<length lp. bl < length (lp ! i)" by (rule bl)
  qed
  moreover have "initial_state bl lp = initial_state_loop bl lp [1..<length lp] ?r"
    using len bl by (simp add: initial_state_def Let_def)
  ultimately show ?thesis by simp
qed

lemma select_columns_ok:
  assumes "list_all (\<lambda>row. bl < length row \<and> list_all (\<lambda>c. c < length row) cs) lp"
  shows "select_columns lp cs = Inr (map (\<lambda>row. map (\<lambda>c. row ! c) cs) lp)"
  using assms by (auto simp: select_columns_def list_all_iff)

lemma make_log_phi_ok:
  assumes "length r_prev = xlen"
  shows "\<exists>phi. make_log_phi xlen ys cs r_prev = Inr phi \<and> length phi = xlen \<and>
           (\<forall>t < xlen. \<forall>i < length cs. phi ! t ! i =
              (if length ys > 1 \<and> cs ! i = last ys then snd (r_prev ! t)
               else logaddexp (fst (r_prev ! t)) (snd (r_prev ! t))))"
proof (cases "length ys > 1 \<and> last ys \<in> set cs")
  case True
  then show ?thesis using assms
    by (auto simp: make_log_phi_def Let_def case_prod_beta)
next
  case False
  have "\<forall>i < length cs. \<not> (length ys > 1 \<and> cs ! i = last ys)"
    using False by (auto simp: in_set_conv_nth)
  with False show ?thesis using assms
    by (auto simp: make_log_phi_def Let_def case_prod_beta)
qed

lemma forward_loop_inv:
  assumes "length r = xlen" "1 \<le> k" "k \<le> xlen" "xlen \<le> length phi"
    and "\<forall>t < xlen. bl < length (lp ! t)"
  shows "\<exists>r' psi'. forward_loop bl lp xs phi n [k..<xlen] (r, psi) = Inr (r', psi') \<and>
           length r' = xlen \<and> length psi' = (if k < xlen then n else length psi) \<and>
           (\<forall>t < k. r' ! t = r ! t) \<and>
           (\<forall>t. k \<le> t \<and> t < xlen \<longrightarrow>
              r' ! t =
                (map (\<lambda>i. logaddexp (fst (r' ! (t - 1)) ! i) (phi ! (t - 1) ! i) + xs ! t ! i) [0..<n],
                 map (\<lambda>i. logaddexp (fst (r' ! (t - 1)) ! i) (snd (r' ! (t - 1)) ! i) + lp ! t ! bl)
                   [0..<n]))"
  using assms
proof (induction "xlen - k" arbitrary: k r psi)
  case 0
  then have "k = xlen" by simp
  then show ?case using 0(2) by auto
next
  case (Suc m)
  then have k: "k < xlen" by simp
  let ?nb = "map (\<lambda>i. logaddexp (fst (r ! (k - 1)) ! i) (phi ! (k - 1) ! i) + xs ! k ! i) [0..<n]"
  let ?bk = "map (\<lambda>i. logaddexp (fst (r ! (k - 1)) ! i) (snd (r ! (k - 1)) ! i) + lp ! k ! bl) [0..<n]"
  let ?ps = "map (\<lambda>i. logaddexp (psi ! i) (phi ! (k - 1) ! i + xs ! k ! i)) [0..<n]"
  let ?upd = "r[k := (?nb, ?bk)]"
  have upt: "[k..<xlen] = k # [Suc k..<xlen]" using k by (simp add: upt_conv_Cons)
  have step: "forward_loop bl lp xs phi n [k..<xlen] (r, psi) =
              forward_loop bl lp xs phi n [Suc k..<xlen] (?upd, ?ps)"
    using upt k Suc.prems by (simp add: Let_def)
  have "\<exists>r' psi'. forward_loop bl lp xs phi n [Suc k..<xlen] (?upd, ?ps) = Inr (r', psi') \<and>
           length r' = xlen \<and> length psi' = (if Suc k < xlen then n else length ?ps) \<and>
           (\<forall>t < Suc k. r' ! t = ?upd ! t) \<and>
           (\<forall>t. Suc k \<le> t \<and> t < xlen \<longrightarrow>
              r' ! t =
                (map (\<lambda>i. logaddexp (fst (r' ! (t - 1)) ! i) (phi ! (t - 1) ! i) + xs ! t ! i) [0..<n],
                 map (\<lambda>i. logaddexp (fst (r' ! (t - 1)) ! i) (snd (r' ! (t - 1)) ! i) + lp ! t ! bl)
                   [0..<n]))"
  proof (rule Suc.hyps(1))
    show "m = xlen - Suc k" using Suc.hyps(2) by simp
    show "length ?upd = xlen" using Suc.prems by simp
    show "1 \<le> Suc k" by simp
    show "Suc k \<le> xlen" using k by simp
    show "xlen \<le> length phi" by (rule Suc.prems(4))
    show "\<forall>t<xlen. bl < length (lp ! t)" by (rule Suc.prems(5))
  qed
  then obtain r' psi' where
    res: "forward_loop bl lp xs phi n [Suc k..<xlen] (?upd, ?ps) = Inr (r', psi')"
    and len: "length r' = xlen" "length psi' = (if Suc k < xlen then n else length ?ps)"
    and keep: "\<forall>t < Suc k. r' ! t = ?upd ! t"
    and rec: "\<forall>t. Suc k \<le> t \<and> t < xlen \<longrightarrow>
              r' ! t =
                (map (\<lambda>i. logaddexp (fst (r' ! (t - 1)) ! i) (phi ! (t - 1) ! i) + xs ! t ! i) [0..<n],
                 map (\<lambda>i. logaddexp (fst (r' ! (t - 1)) ! i) (snd (r' ! (t - 1)) ! i) + lp ! t ! bl)
                   [0..<n])"
    by blast
  have km1: "r' ! (k - 1) = r ! (k - 1)" using keep Suc.prems(2) by (simp add: nth_list_update)
  have atk: "r' ! k = (?nb, ?bk)" using keep k Suc.prems(1) by simp
  have old: "\<forall>t < k. r' ! t = r ! t" using keep by (simp add: nth_list_update)
  have rec': "\<forall>t. k \<le> t \<and> t < xlen \<longrightarrow>
              r' ! t =
                (map (\<lambda>i. logaddexp (fst (r' ! (t - 1)) ! i) (phi ! (t - 1) ! i) + xs ! t ! i) [0..<n],
                 map (\<lambda>i. logaddexp (fst (r' ! (t - 1)) ! i) (snd (r' ! (t - 1)) ! i) + lp ! t ! bl)
                   [0..<n])"
  proof (intro allI impI)
    fix t assume t: "k \<le> t \<and> t < xlen"
    show "r' ! t =
                (map (\<lambda>i. logaddexp (fst (r' ! (t - 1)) ! i) (phi ! (t - 1) ! i) + xs ! t ! i) [0..<n],
                 map (\<lambda>i. logaddexp (fst (r' ! (t - 1)) ! i) (snd (r' ! (t - 1)) ! i) + lp ! t ! bl)
                   [0..<n])"
    proof (cases "t = k")
      case True
      then show ?thesis using atk km1 by simp
    next
      case False
      with t have "Suc k \<le> t \<and> t < xlen" by simp
      with rec show ?thesis by blast
    qed
  qed
  have "length psi' = n" using len(2) by simp
  with step res len(1) old rec' k show ?case by simp
qed


lemma rollaxis_nth:
  "i < n \<Longrightarrow> t < length r \<Longrightarrow> rollaxis n r ! i ! t = (fst (r ! t) ! i, snd (r ! t) ! i)"
  by (simp add: rollaxis_def case_prod_beta)

lemma prefix_score_unfold:
  assumes sel: "select_columns lp cs = Inr xs"
    and noerr: "\<not> (ys = [] \<or> length lp = 0 \<or> (length ys > 1 \<and> \<not> length ys - 2 < length lp))"
    and phi: "make_log_phi (length lp) ys cs r_prev = Inr phi"
    and ini: "ini = (if length ys = 1
                     then (map (\<lambda>t. (map (mem t 0) [0..<length cs], map (mem t 1) [0..<length cs]))
                             [0..<length lp])[0 := (xs ! 0, replicate (length cs) logzero)]
                     else (map (\<lambda>t. (map (mem t 0) [0..<length cs], map (mem t 1) [0..<length cs]))
                             [0..<length lp])
                          [length ys - 2 := (replicate (length cs) logzero, replicate (length cs) logzero)])"
    and start: "start = max (length ys - 1) 1"
    and loop: "forward_loop bl lp xs phi (length cs) [start..<length lp] (ini, fst (ini ! (start - 1)))
               = Inr (r, psi)"
  shows "prefix_score bl e lp mem ys cs r_prev =
           (if e \<in> set cs then
              (if r_prev = [] then Inl IndexError
               else Inr (map (\<lambda>i. if cs ! i = e then last (map (\<lambda>(nb, b). logaddexp nb b) r_prev)
                                   else psi ! i) [0..<length cs],
                         rollaxis (length cs)
                           (if [start..<length lp] = []
                            then r[start - 1 :=
                                   (map (\<lambda>i. if cs ! i = e
                                              then last (map (\<lambda>(nb, b). logaddexp nb b) r_prev)
                                              else psi ! i) [0..<length cs],
                                    snd (r ! (start - 1)))]
                            else r)))
            else Inr (psi, rollaxis (length cs) r))"
  unfolding prefix_score_def Let_def sel sum.case ini [symmetric] start [symmetric] phi loop
  using noerr by (simp only: if_False sum.case prod.case)

lemma prefix_score_result:
  assumes ys: "ys \<noteq> []" and lp: "lp \<noteq> []" and le: "length ys \<le> Suc (length lp)"
    and rp: "length r_prev = length lp"
    and wf: "list_all (\<lambda>row. bl < length row \<and> list_all (\<lambda>c. c < length row) cs) lp"
  shows "\<exists>psi r. prefix_score bl e lp mem ys cs r_prev = Inr (psi, rollaxis (length cs) r) \<and>
           length r = length lp \<and> length psi = length cs \<and>
           (\<forall>i < length cs. cs ! i = e \<longrightarrow>
              psi ! i = logaddexp (fst (last r_prev)) (snd (last r_prev))) \<and>
           (\<forall>t. max (length ys - 1) 1 \<le> t \<and> t < length lp \<longrightarrow>
              (\<forall>i < length cs.
                 fst (r ! t) ! i =
                   logaddexp (fst (r ! (t - 1)) ! i)
                     (if length ys > 1 \<and> cs ! i = last ys then snd (r_prev ! (t - 1))
                      else logaddexp (fst (r_prev ! (t - 1))) (snd (r_prev ! (t - 1))))
                   + lp ! t ! (cs ! i) \<and>
                 snd (r ! t) ! i =
                   logaddexp (fst (r ! (t - 1)) ! i) (snd (r ! (t - 1)) ! i) + lp ! t ! bl))"
proof -
  let ?xlen = "length lp" and ?n = "length cs"
  let ?xs = "map (\<lambda>row. map (\<lambda>c. row ! c) cs) lp"
  let ?mem = "map (\<lambda>t. (map (mem t 0) [0..<?n], map (mem t 1) [0..<?n])) [0..<?xlen]"
  let ?ini = "if length ys = 1 then ?mem[0 := (?xs ! 0, replicate ?n logzero)]
              else ?mem[length ys - 2 := (replicate ?n logzero, replicate ?n logzero)]"
  let ?start = "max (length ys - 1) 1"
  let ?rsum = "map (\<lambda>(nb, b). logaddexp nb b) r_prev"
  have xlen: "0 < ?xlen" using lp by simp
  have sel: "select_columns lp cs = Inr ?xs" using wf by (rule select_columns_ok)
  have noerr: "\<not> (ys = [] \<or> ?xlen = 0 \<or> (length ys > 1 \<and> \<not> length ys - 2 < ?xlen))"
    using ys lp le by auto
  obtain phi where phi: "make_log_phi ?xlen ys cs r_prev = Inr phi" "length phi = ?xlen"
    and phi_nth: "\<forall>t < ?xlen. \<forall>i < ?n. phi ! t ! i =
              (if length ys > 1 \<and> cs ! i = last ys then snd (r_prev ! t)
               else logaddexp (fst (r_prev ! t)) (snd (r_prev ! t)))"
    using make_log_phi_ok [OF rp, of ys cs] by blast
  have bl: "\<forall>t < ?xlen. bl < length (lp ! t)" using wf by (simp add: list_all_length)
  have xlen1: "1 \<le> ?xlen" using lp by (cases lp) auto
  have start: "1 \<le> ?start" "?start \<le> ?xlen" using le xlen1 by arith+
  have len_ini: "length ?ini = ?xlen" by simp
  have sm1: "?start - 1 < ?xlen" using start xlen1 by arith
  have ini_row: "length (fst (?ini ! (?start - 1))) = ?n"
  proof (cases "length ys = 1")
    case True
    then show ?thesis using xlen by (simp add: nth_list_update)
  next
    case False
    then have "length ys > 1" using ys by (cases ys) auto
    then have "?start - 1 = length ys - 2" by auto
    then show ?thesis using False sm1 by (simp add: nth_list_update)
  qed
  obtain r psi where
    loop: "forward_loop bl lp ?xs phi ?n [?start..<?xlen] (?ini, fst (?ini ! (?start - 1))) = Inr (r, psi)"
    and len_r: "length r = ?xlen"
    and len_psi: "length psi = (if ?start < ?xlen then ?n else length (fst (?ini ! (?start - 1))))"
    and rec: "\<forall>t. ?start \<le> t \<and> t < ?xlen \<longrightarrow>
              r ! t =
                (map (\<lambda>i. logaddexp (fst (r ! (t - 1)) ! i) (phi ! (t - 1) ! i) + ?xs ! t ! i) [0..<?n],
                 map (\<lambda>i. logaddexp (fst (r ! (t - 1)) ! i) (snd (r ! (t - 1)) ! i) + lp ! t ! bl)
                   [0..<?n])"
    using forward_loop_inv [OF len_ini start(1) start(2) _ bl, of phi ?xs ?n "fst (?ini ! (?start - 1))"]
      phi(2) by auto
  have len_psi': "length psi = ?n" using len_psi ini_row by simp
  have rec_el: "\<forall>t. ?start \<le> t \<and> t < ?xlen \<longrightarrow>
              (\<forall>i < ?n.
                 fst (r ! t) ! i =
                   logaddexp (fst (r ! (t - 1)) ! i)
                     (if length ys > 1 \<and> cs ! i = last ys then snd (r_prev ! (t - 1))
                      else logaddexp (fst (r_prev ! (t - 1))) (snd (r_prev ! (t - 1))))
                   + lp ! t ! (cs ! i) \<and>
                 snd (r ! t) ! i =
                   logaddexp (fst (r ! (t - 1)) ! i) (snd (r ! (t - 1)) ! i) + lp ! t ! bl)"
  proof (intro allI impI)
    fix t i assume t: "?start \<le> t \<and> t < ?xlen" and i: "i < ?n"
    have "t - 1 < ?xlen" using t by arith
    then have p: "phi ! (t - 1) ! i =
              (if length ys > 1 \<and> cs ! i = last ys then snd (r_prev ! (t - 1))
               else logaddexp (fst (r_prev ! (t - 1))) (snd (r_prev ! (t - 1))))"
      using phi_nth i by blast
    have x: "?xs ! t ! i = lp ! t ! (cs ! i)" using t i by simp
    have "r ! t =
                (map (\<lambda>i. logaddexp (fst (r ! (t - 1)) ! i) (phi ! (t - 1) ! i) + ?xs ! t ! i) [0..<?n],
                 map (\<lambda>i. logaddexp (fst (r ! (t - 1)) ! i) (snd (r ! (t - 1)) ! i) + lp ! t ! bl)
                   [0..<?n])"
      using rec t by blast
    then show "fst (r ! t) ! i =
                   logaddexp (fst (r ! (t - 1)) ! i)
                     (if length ys > 1 \<and> cs ! i = last ys then snd (r_prev ! (t - 1))
                      else logaddexp (fst (r_prev ! (t - 1))) (snd (r_prev ! (t - 1))))
                   + lp ! t ! (cs ! i) \<and>
                 snd (r ! t) ! i =
                   logaddexp (fst (r ! (t - 1)) ! i) (snd (r ! (t - 1)) ! i) + lp ! t ! bl"
      using i p x by simp
  qed
  have rp_ne: "r_prev \<noteq> []" using rp lp by auto
  have last_sum: "last ?rsum = logaddexp (fst (last r_prev)) (snd (last r_prev))"
    using rp_ne by (simp add: last_map case_prod_beta)
  show ?thesis
  proof (cases "e \<in> set cs")
    case False
    then have "prefix_score bl e lp mem ys cs r_prev = Inr (psi, rollaxis ?n r)"
      using prefix_score_unfold [OF sel noerr phi(1) refl refl loop, of e] by simp
    moreover have "\<forall>i < ?n. cs ! i \<noteq> e" using False by auto
    ultimately show ?thesis using len_r len_psi' rec_el by auto
  next
    case True
    let ?psi = "map (\<lambda>i. if cs ! i = e then last ?rsum else psi ! i) [0..<?n]"
    let ?r = "if [?start..<?xlen] = [] then r[?start - 1 := (?psi, snd (r ! (?start - 1)))] else r"
    have res: "prefix_score bl e lp mem ys cs r_prev = Inr (?psi, rollaxis ?n ?r)"
      using True rp_ne prefix_score_unfold [OF sel noerr phi(1) refl refl loop, of e]
      by (simp only: if_True if_False)
    have "length ?r = ?xlen" using len_r by simp
    moreover have "length ?psi = ?n" by simp
    moreover have "\<forall>i < ?n. cs ! i = e \<longrightarrow>
              ?psi ! i = logaddexp (fst (last r_prev)) (snd (last r_prev))"
      using last_sum by simp
    moreover have "\<forall>t. ?start \<le> t \<and> t < ?xlen \<longrightarrow>
              (\<forall>i < ?n.
                 fst (?r ! t) ! i =
                   logaddexp (fst (?r ! (t - 1)) ! i)
                     (if length ys > 1 \<and> cs ! i = last ys then snd (r_prev ! (t - 1))
                      else logaddexp (fst (r_prev ! (t - 1))) (snd (r_prev ! (t - 1))))
                   + lp ! t ! (cs ! i) \<and>
                 snd (?r ! t) ! i =
                   logaddexp (fst (?r ! (t - 1)) ! i) (snd (?r ! (t - 1)) ! i) + lp ! t ! bl)"
    proof (cases "[?start..<?xlen] = []")
      case True
      then show ?thesis by auto
    next
      case False
      then show ?thesis using rec_el by simp
    qed
    ultimately show ?thesis using res by blast
  qed
qed

text \<open>
  C6.  For a table with at least one frame, whose frames all have an entry for the blank
  label, \<^verbatim>\<open>initial_state\<close> returns a state with one pair per frame: at every frame \<open>t\<close>
  the blank entry is the sum of the blank log-probabilities of the frames \<open>0, \<dots>, t\<close>, and
  the non-blank entry is the log-zero constant.
\<close>

theorem initial_state_prefix_sum:
  assumes "lp \<noteq> []" and "list_all (\<lambda>row. bl < length row) lp"
  shows "\<exists>r. initial_state bl lp = Inr r \<and> length r = length lp \<and>
           (\<forall>t < length lp.
              r ! t = (logzero, sum_list (map (\<lambda>row. row ! bl) (take (Suc t) lp))))"
  using initial_state_ok [OF assms] by (simp add: blank_prefix_sum_def)

theorem initial_state_prefix_sum_witness:
  "initial_state 0 exG =
     Inr [(logzero, ln (1/10)),
          (logzero, ln (1/10) + ln (7/10)),
          (logzero, ln (1/10) + ln (7/10) + ln (1/10))]"
proof -
  have "exG \<noteq> []" and "list_all (\<lambda>row. 0 < length row) exG"
    by (simp_all add: exG_def)
  from initial_state_prefix_sum [OF this] obtain r where
    r: "initial_state 0 exG = Inr r" "length r = length exG"
    and nth: "\<forall>t < length exG.
              r ! t = (logzero, sum_list (map (\<lambda>row. row ! 0) (take (Suc t) exG)))"
    by blast
  have len: "length r = 3" using r(2) by (simp add: exG_def)
  have "r ! 0 = (logzero, ln (1/10))" "r ! 1 = (logzero, ln (1/10) + ln (7/10))"
    "r ! 2 = (logzero, ln (1/10) + ln (7/10) + ln (1/10))"
    using nth by (simp_all add: exG_def)
  then have "r = [(logzero, ln (1/10)), (logzero, ln (1/10) + ln (7/10)),
          (logzero, ln (1/10) + ln (7/10) + ln (1/10))]"
    using len by (intro nth_equalityI) (auto simp: less_Suc_eq numeral_3_eq_3 numeral_2_eq_2)
  with r(1) show ?thesis by simp
qed

text \<open>
  C3.  For a prefix with at least one label after the start marker, on inputs of matching
  sizes, the call returns, and for every candidate \<open>cs ! i\<close> and every frame \<open>t\<close> from
  \<open>start = length ys - 1\<close> to the last one, the non-blank entry of the new state is
  \<open>logaddexp\<close> of the previous non-blank entry and the connecting term at \<open>t - 1\<close>, plus the
  log-probability of the candidate at \<open>t\<close>; the connecting term is the blank entry of
  \<open>r_prev\<close> alone when the candidate repeats the last label of the prefix, and the
  \<open>logaddexp\<close> of both entries of \<open>r_prev\<close> otherwise.
\<close>

theorem prefix_score_nonblank_recursion:
  assumes "length ys > 1" and "length ys \<le> Suc (length lp)" and "length r_prev = length lp"
    and "list_all (\<lambda>row. bl < length row \<and> list_all (\<lambda>c. c < length row) cs) lp"
  shows "\<exists>psi states. prefix_score bl e lp mem ys cs r_prev = Inr (psi, states) \<and>
           (\<forall>i < length cs. \<forall>t. length ys - 1 \<le> t \<and> t < length lp \<longrightarrow>
              fst (states ! i ! t) =
                logaddexp (fst (states ! i ! (t - 1))) (connecting_term ys r_prev (cs ! i) (t - 1))
                + lp ! t ! (cs ! i))"
proof -
  have ys: "ys \<noteq> []" and lp: "lp \<noteq> []" using assms(1,2) by auto
  have start: "max (length ys - 1) 1 = length ys - 1" using assms(1) by simp
  obtain psi r where res: "prefix_score bl e lp mem ys cs r_prev = Inr (psi, rollaxis (length cs) r)"
    and len: "length r = length lp"
    and rec: "\<forall>t. max (length ys - 1) 1 \<le> t \<and> t < length lp \<longrightarrow>
              (\<forall>i < length cs.
                 fst (r ! t) ! i =
                   logaddexp (fst (r ! (t - 1)) ! i)
                     (if length ys > 1 \<and> cs ! i = last ys then snd (r_prev ! (t - 1))
                      else logaddexp (fst (r_prev ! (t - 1))) (snd (r_prev ! (t - 1))))
                   + lp ! t ! (cs ! i) \<and>
                 snd (r ! t) ! i =
                   logaddexp (fst (r ! (t - 1)) ! i) (snd (r ! (t - 1)) ! i) + lp ! t ! bl)"
    using prefix_score_result [OF ys lp assms(2,3,4), of e mem] by blast
  have "\<forall>i < length cs. \<forall>t. length ys - 1 \<le> t \<and> t < length lp \<longrightarrow>
              fst (rollaxis (length cs) r ! i ! t) =
                logaddexp (fst (rollaxis (length cs) r ! i ! (t - 1)))
                  (connecting_term ys r_prev (cs ! i) (t - 1))
                + lp ! t ! (cs ! i)"
  proof (intro allI impI)
    fix i t assume i: "i < length cs" and t: "length ys - 1 \<le> t \<and> t < length lp"
    have t1: "t - 1 < length r" "t < length r" using t len by auto
    have "fst (r ! t) ! i =
                   logaddexp (fst (r ! (t - 1)) ! i)
                     (if length ys > 1 \<and> cs ! i = last ys then snd (r_prev ! (t - 1))
                      else logaddexp (fst (r_prev ! (t - 1))) (snd (r_prev ! (t - 1))))
                   + lp ! t ! (cs ! i)"
      using rec t i start by simp
    then show "fst (rollaxis (length cs) r ! i ! t) =
                logaddexp (fst (rollaxis (length cs) r ! i ! (t - 1)))
                  (connecting_term ys r_prev (cs ! i) (t - 1))
                + lp ! t ! (cs ! i)"
      using i t1 assms(1) by (simp add: rollaxis_nth connecting_term_def)
  qed
  with res show ?thesis by blast
qed

theorem prefix_score_nonblank_recursion_witness:
  "\<exists>psi states. prefix_score 0 2 exG (\<lambda>t k i. 0) [2, 1] [1, 2] exR = Inr (psi, states) \<and>
     fst (states ! 0 ! 1) = logaddexp (fst (states ! 0 ! 0)) (- 4) + ln (1/5) \<and>
     fst (states ! 1 ! 1) = logaddexp (fst (states ! 1 ! 0)) (logaddexp (- 3) (- 4)) + ln (1/10) \<and>
     fst (states ! 0 ! 2) = logaddexp (fst (states ! 0 ! 1)) (- 5) + ln (4/5)"
proof -
  have "\<exists>psi states. prefix_score 0 2 exG (\<lambda>t k i. 0) [2, 1] [1, 2] exR = Inr (psi, states) \<and>
           (\<forall>i < length [1, 2 :: nat]. \<forall>t. length [2, 1 :: nat] - 1 \<le> t \<and> t < length exG \<longrightarrow>
              fst (states ! i ! t) =
                logaddexp (fst (states ! i ! (t - 1)))
                  (connecting_term [2, 1] exR ([1, 2] ! i) (t - 1))
                + exG ! t ! ([1, 2] ! i))"
    by (rule prefix_score_nonblank_recursion) (simp_all add: exG_def exR_def)
  then obtain psi states where
    res: "prefix_score 0 2 exG (\<lambda>t k i. 0) [2, 1] [1, 2] exR = Inr (psi, states)"
    and rec: "\<And>i t. i < 2 \<Longrightarrow> 1 \<le> t \<Longrightarrow> t < 3 \<Longrightarrow>
              fst (states ! i ! t) =
                logaddexp (fst (states ! i ! (t - 1)))
                  (connecting_term [2, 1] exR ([1, 2] ! i) (t - 1))
                + exG ! t ! ([1, 2] ! i)"
    by (auto simp: exG_def)
  have "fst (states ! 0 ! 1) = logaddexp (fst (states ! 0 ! 0)) (- 4) + ln (1/5)"
    using rec [of 0 1] by (simp add: connecting_term_def exR_def exG_def)
  moreover have "fst (states ! 1 ! 1) =
      logaddexp (fst (states ! 1 ! 0)) (logaddexp (- 3) (- 4)) + ln (1/10)"
    using rec [of 1 1] by (simp add: connecting_term_def exR_def exG_def)
  moreover have "fst (states ! 0 ! 2) = logaddexp (fst (states ! 0 ! 1)) (- 5) + ln (4/5)"
    using rec [of 0 2] by (simp add: connecting_term_def exR_def exG_def)
  ultimately show ?thesis using res by blast
qed

text \<open>
  C5.  On inputs of matching sizes, the prefix log-probability returned for a candidate
  equal to \<open>eos\<close> is \<open>logaddexp\<close> of the two entries of \<open>r_prev\<close> at the last frame: it is
  read from the state of the prefix that is not extended, whatever the forward loop
  computed.
\<close>

theorem prefix_score_eos:
  assumes "ys \<noteq> []" and "lp \<noteq> []" and "length ys \<le> Suc (length lp)"
    and "length r_prev = length lp"
    and "list_all (\<lambda>row. bl < length row \<and> list_all (\<lambda>c. c < length row) cs) lp"
    and "i < length cs" and "cs ! i = e"
  shows "\<exists>psi states. prefix_score bl e lp mem ys cs r_prev = Inr (psi, states) \<and>
           psi ! i = logaddexp (fst (r_prev ! (length lp - 1))) (snd (r_prev ! (length lp - 1)))"
proof -
  have "r_prev \<noteq> []" using assms(2,4) by auto
  then have "last r_prev = r_prev ! (length lp - 1)"
    using assms(4) by (simp add: last_conv_nth)
  then show ?thesis
    using prefix_score_result [OF assms(1-5), of e mem] assms(6,7) by auto
qed

theorem prefix_score_eos_witness:
  "\<exists>psi states. prefix_score 0 2 exG (\<lambda>t k i. 0) [2, 1] [1, 2] exR = Inr (psi, states) \<and>
     psi ! 1 = logaddexp (- 1) (- 6)"
proof -
  have "\<exists>psi states. prefix_score 0 2 exG (\<lambda>t k i. 0) [2, 1] [1, 2] exR = Inr (psi, states) \<and>
           psi ! 1 = logaddexp (fst (exR ! (length exG - 1))) (snd (exR ! (length exG - 1)))"
    by (rule prefix_score_eos) (simp_all add: exG_def exR_def)
  then show ?thesis by (simp add: exG_def exR_def)
qed

section \<open>Properties of the beam search\<close>

subsection \<open>The examples, evaluated\<close>

lemma zero_prob_pos: "0 < zero_prob" by (simp add: zero_prob_def)
lemma zero_prob_small: "zero_prob < 1/1000"
proof -
  have "1 + (- LOG_0) \<le> exp (- LOG_0)" by (rule exp_ge_add_one_self)
  then have "1000 < exp (- LOG_0)" by (simp add: LOG_0_def)
  then have "inverse (exp (- LOG_0)) < inverse 1000"
    by (intro less_imp_inverse_less) auto
  then show ?thesis by (simp add: zero_prob_def exp_minus)
qed

lemma LOG_0_ln: "LOG_0 = ln zero_prob" by (simp add: zero_prob_def)
lemma LOG_1_ln: "LOG_1 = ln 1" by (simp add: LOG_1_def)

lemma lae_ln: "0 < x \<Longrightarrow> 0 < y \<Longrightarrow> logaddexp (ln x) (ln y) = ln (x + y)"
  by (simp add: logaddexp_def)

lemma ln_plus_ln: "0 < x \<Longrightarrow> 0 < y \<Longrightarrow> ln x + ln y = ln (x * y)" for x y :: real
  by (simp add: ln_mult_pos)

lemmas ln_eval = LOG_0_ln LOG_1_ln lae_ln ln_plus_ln add_pos_pos

lemma topk0: "topk 2 row0 = Inr [0, 1]"
  by (simp add: topk_def row0_def sorted_desc_def upt_rec)

lemma topk1: "topk 2 row1 = Inr [1, 0]"
  by (simp add: topk_def row1_def sorted_desc_def upt_rec)

lemma step0: "time_step (exArgs w p u) exT 0 (initial_beam (exArgs w p u)) = Inr beam1"
  using zero_prob_pos zero_prob_small
  apply (simp add: time_step_def topk0 initial_beam_def exArgs_def exT_def)
  apply (simp add: row0_def not_extended_def ln_eval beam1_def
      pruning_def sorted_by_score_def sorted_desc_def py_take_def)
  done

lemma step1: "time_step (exArgs w p u) exT 1 beam1 = Inr beam2"
  using zero_prob_pos zero_prob_small
  apply (simp add: time_step_def topk1 beam1_def exArgs_def exT_def)
  apply (simp add: row1_def not_extended_def ln_eval add_divide_distrib beam2_def
      pruning_def sorted_by_score_def sorted_desc_def py_take_def)
  done

lemma loop2: "time_loop (exArgs w p u) exT [0..<2] (initial_beam (exArgs w p u)) = Inr beam2"
  using step1 [of w p u] by (simp add: upt_rec step0)

lemma final2:
  "final_beam (exArgs w p u) exT 2 =
     Inr [([2, 1], Some (ln (11 * zero_prob / 5 + 2 / 5))),
          ([2, 1], Some (ln (19 / 50 + 53 * zero_prob / 100)))]"
  using loop2 [of w p u] by (simp add: final_beam_def rescoring_def exArgs_def beam2_def)

lemma best2: "beam_search_utt (exArgs w p u) exT 2 = Inr [1]"
  by (simp add: beam_search_utt_def final2)

subsection \<open>Sorting, candidates and pruning\<close>

lemma mset_sorted_desc: "mset (sorted_desc key xs) = mset xs"
  by (simp add: sorted_desc_def)

lemma set_sorted_desc: "set (sorted_desc key xs) = set xs"
  by (simp add: sorted_desc_def)

lemma length_sorted_desc: "length (sorted_desc key xs) = length xs"
  by (simp add: sorted_desc_def)

lemma distinct_sorted_desc: "distinct (sorted_desc key xs) = distinct xs"
  by (simp add: sorted_desc_def)

lemma sorted_desc_descending: "sorted_wrt (\<lambda>x y. key y \<le> key x) (sorted_desc key xs)"
proof -
  have "sorted (map key (sort_key key (rev xs)))" by simp
  then have "sorted_wrt (\<lambda>x y. key x \<le> key y) (sort_key key (rev xs))"
    by (simp add: sorted_map)
  then show ?thesis by (simp add: sorted_desc_def sorted_wrt_rev)
qed

lemma sorted_desc_stable:
  "filter (\<lambda>y. key y = k) (sorted_desc key xs) = filter (\<lambda>y. key y = k) xs"
proof -
  have "filter (\<lambda>y. key y = k) (sorted_desc key xs) =
        rev (filter (\<lambda>y. key y = k) (sort_key key (rev xs)))"
    by (simp add: sorted_desc_def rev_filter)
  also have "\<dots> = rev (filter (\<lambda>y. key y = k) (rev xs))"
    by (simp only: sort_key_stable)
  also have "\<dots> = filter (\<lambda>y. key y = k) xs" by (simp add: rev_filter)
  finally show ?thesis .
qed

lemma topk_distinct:
  assumes "topk k row = Inr idx"
  shows "distinct idx \<and> (\<forall>c \<in> set idx. c < length row) \<and> 0 \<le> k \<and> length idx = nat k"
proof -
  from assms have k: "0 \<le> k" "k \<le> int (length row)"
    and idx: "idx = take (nat k) (sorted_desc (\<lambda>i. row ! i) [0..<length row])"
    by (auto simp: topk_def split: if_splits)
  have "distinct idx" using idx by (simp add: distinct_sorted_desc)
  moreover have "set idx \<subseteq> {0..<length row}"
    using set_take_subset [of "nat k" "sorted_desc (\<lambda>i. row ! i) [0..<length row]"] idx
    by (simp add: set_sorted_desc)
  moreover have "length idx = nat k" using idx k by (simp add: length_sorted_desc)
  ultimately show ?thesis using k by auto
qed

lemma not_extended_hyp:
  assumes "not_extended a row h = Inr u"
  shows "hyp u = hyp h \<and> score u \<noteq> None \<and> clm_score u = clm_score h"
  using assms by (auto simp: not_extended_def Let_def split: if_splits)

lemma extended_hyps:
  assumes "extended a row h cs clm = Inr es"
  shows "map hyp es = map (\<lambda>c. hyp h @ [c]) (filter (\<lambda>c. c \<noteq> blank a) cs) \<and>
         (\<forall>e \<in> set es. score e \<noteq> None)"
  using assms
proof (induction cs arbitrary: clm es)
  case Nil
  then show ?case by simp
next
  case (Cons c cs)
  show ?case
  proof (cases "c = blank a")
    case True
    with Cons.prems have "extended a row h cs clm = Inr es"
      by (simp split: if_splits)
    with Cons.IH True show ?thesis by simp
  next
    case False
    with Cons.prems obtain clm' rest e where
      rest: "extended a row h cs clm' = Inr rest" and es: "es = e # rest"
      and e: "hyp e = hyp h @ [c]" "score e \<noteq> None"
      by (auto simp: Let_def split: if_splits sum.splits)
    from Cons.IH [OF rest] es e False show ?thesis by simp
  qed
qed

lemma expand_beam_parts:
  assumes "expand_beam a row idx beam = Inr nb"
  shows "\<forall>h' \<in> set nb. \<exists>h \<in> set beam.
           not_extended a row h = Inr h' \<or>
           (\<exists>es. extended a row h idx (clm_score h) = Inr es \<and> h' \<in> set es)"
  using assms
proof (induction beam arbitrary: nb)
  case Nil
  then show ?case by simp
next
  case (Cons h beam)
  from Cons.prems obtain u es rest where
    u: "not_extended a row h = Inr u" and es: "extended a row h idx (clm_score h) = Inr es"
    and rest: "expand_beam a row idx beam = Inr rest" and nb: "nb = u # es @ rest"
    by (auto split: sum.splits)
  from Cons.IH [OF rest] u es nb show ?case by auto
qed

lemma expand_beam_single:
  assumes "expand_beam a row idx beam = Inr nb" and "h \<in> set beam"
  shows "\<exists>cands. expand_beam a row idx [h] = Inr cands \<and> mset cands \<subseteq># mset nb \<and>
           map hyp cands = hyp h # map (\<lambda>c. hyp h @ [c]) (filter (\<lambda>c. c \<noteq> blank a) idx)"
  using assms
proof (induction beam arbitrary: nb)
  case Nil
  then show ?case by simp
next
  case (Cons g beam)
  from Cons.prems(1) obtain u es rest where
    u: "not_extended a row g = Inr u" and es: "extended a row g idx (clm_score g) = Inr es"
    and rest: "expand_beam a row idx beam = Inr rest" and nb: "nb = u # es @ rest"
    by (auto split: sum.splits)
  show ?case
  proof (cases "h = g")
    case True
    have "expand_beam a row idx [h] = Inr (u # es)" using True u es by simp
    moreover have "mset (u # es) \<subseteq># mset nb" using nb by simp
    moreover have "map hyp (u # es) = hyp h # map (\<lambda>c. hyp h @ [c]) (filter (\<lambda>c. c \<noteq> blank a) idx)"
      using True not_extended_hyp [OF u] extended_hyps [OF es] by simp
    ultimately show ?thesis by (intro exI [of _ "u # es"] conjI)
  next
    case False
    with Cons.prems(2) have "h \<in> set beam" by simp
    from Cons.IH [OF rest this] obtain cands where
      c: "expand_beam a row idx [h] = Inr cands \<and> mset cands \<subseteq># mset rest \<and>
      map hyp cands = hyp h # map (\<lambda>c. hyp h @ [c]) (filter (\<lambda>c. c \<noteq> blank a) idx)"
      by (rule exE)
    have "mset rest \<subseteq># mset nb" using nb by simp
    with c have "mset cands \<subseteq># mset nb" by (meson subset_mset.order_trans)
    with c show ?thesis by (intro exI [of _ cands]) simp
  qed
qed

lemma expand_beam_scored:
  assumes "expand_beam a row idx beam = Inr nb"
  shows "\<forall>h' \<in> set nb. score h' \<noteq> None"
proof
  fix h' assume "h' \<in> set nb"
  with expand_beam_parts [OF assms] obtain h where
    "not_extended a row h = Inr h' \<or>
       (\<exists>es. extended a row h idx (clm_score h) = Inr es \<and> h' \<in> set es)"
    by blast
  then show "score h' \<noteq> None"
    using not_extended_hyp extended_hyps by blast
qed

lemma distinct_candidates:
  assumes "distinct idx"
  shows "distinct (ys # map (\<lambda>c. ys @ [c]) (filter P idx))"
proof -
  have "inj_on (\<lambda>c. ys @ [c]) (set (filter P idx))" by (simp add: inj_on_def)
  then have "distinct (map (\<lambda>c. ys @ [c]) (filter P idx))"
    using assms by (simp add: distinct_map)
  then show ?thesis by auto
qed

lemma time_step_unfold:
  assumes "time_step a lp t beam = Inr beam'"
  obtains idx nb where "t < length lp"
    and "topk (min (beam_width a) (int (vocab a))) (lp ! t) = Inr idx"
    and "expand_beam a (lp ! t) idx beam = Inr nb"
    and "beam' = take (nat (beam_width a)) (sorted_desc (\<lambda>x. the (score x)) nb)"
    and "0 \<le> beam_width a"
proof -
  from assms obtain idx nb where t: "t < length lp"
    and idx: "topk (min (beam_width a) (int (vocab a))) (lp ! t) = Inr idx"
    and nb: "expand_beam a (lp ! t) idx beam = Inr nb"
    and pr: "pruning (beam_width a) nb = Inr beam'"
    by (auto simp: time_step_def split: if_splits sum.splits)
  from topk_distinct [OF idx] have bw: "0 \<le> beam_width a" by simp
  from expand_beam_scored [OF nb] have "\<not> (\<exists>x \<in> set nb. score x = None)" by blast
  with pr bw have "beam' = take (nat (beam_width a)) (sorted_desc (\<lambda>x. the (score x)) nb)"
    by (simp add: pruning_def sorted_by_score_def py_take_def)
  with t idx nb bw show ?thesis using that by blast
qed

lemma topk_tie: "topk 2 row_tie = Inr [0, 1]"
  by (simp add: topk_def row_tie_def sorted_desc_def upt_rec)

lemma step_tie: "time_step (exArgs w p u) exTie 0 (initial_beam (exArgs w p u)) = Inr beam_tie"
  using zero_prob_pos zero_prob_small
  apply (simp add: time_step_def topk_tie initial_beam_def exArgs_def exTie_def)
  apply (simp add: row_tie_def not_extended_def ln_eval add_divide_distrib beam_tie_def
      pruning_def sorted_by_score_def sorted_desc_def py_take_def)
  done

lemma best_tie: "beam_search_utt (exArgs w p u) exTie 1 = Inr []"
  using step_tie [of w p u]
  by (simp add: beam_search_utt_def final_beam_def rescoring_def exArgs_def beam_tie_def)

text \<open>
  C1 as stated fails: after the second frame of \<open>exT\<close> the beam of width 2 holds the label
  sequence \<open>[2, 1]\<close> twice, once reached by extending \<open>[2]\<close> and once by not extending
  \<open>[2, 1]\<close>, each with its own probability mass (\<open>beam2\<close>).
\<close>

theorem beam_duplicates_counterexample:
  "map_sum id (map hyp)
     (time_loop (exArgs 0 0 ''rescoring'') exT [0..<2] (initial_beam (exArgs 0 0 ''rescoring'')))
   = Inr [[2, 1], [2, 1]]"
  by (simp add: loop2 beam2_def)

text \<open>
  C1, amended.  A time step has no merge: the new beam is a sub-multiset of the
  candidates built in the step, so every hypothesis of the new beam is one candidate
  with the masses of its own path, and candidates with the same label sequence stay
  separate.  The candidates built from one hypothesis of the old beam have pairwise
  distinct label sequences, and a beam of width at most 1 has no duplicate.
\<close>

theorem time_step_no_merge:
  assumes "time_step a lp t beam = Inr beam'"
  shows "\<exists>indices_topk new_beam.
           topk (min (beam_width a) (int (vocab a))) (lp ! t) = Inr indices_topk \<and>
           expand_beam a (lp ! t) indices_topk beam = Inr new_beam \<and>
           mset beam' \<subseteq># mset new_beam \<and>
           (\<forall>h \<in> set beam. \<exists>cands.
              expand_beam a (lp ! t) indices_topk [h] = Inr cands \<and>
              mset cands \<subseteq># mset new_beam \<and> distinct (map hyp cands)) \<and>
           (beam_width a \<le> 1 \<longrightarrow> distinct (map hyp beam'))"
proof -
  from assms obtain idx nb where
    idx: "topk (min (beam_width a) (int (vocab a))) (lp ! t) = Inr idx"
    and nb: "expand_beam a (lp ! t) idx beam = Inr nb"
    and beam': "beam' = take (nat (beam_width a)) (sorted_desc (\<lambda>x. the (score x)) nb)"
    by (rule time_step_unfold)
  have d: "distinct idx" using topk_distinct [OF idx] by simp
  have "mset beam' \<subseteq># mset (sorted_desc (\<lambda>x. the (score x)) nb)"
    unfolding beam' by (metis append_take_drop_id mset_append mset_subset_eq_add_left)
  then have sub: "mset beam' \<subseteq># mset nb" by (simp add: mset_sorted_desc)
  have par: "\<forall>h \<in> set beam. \<exists>cands.
              expand_beam a (lp ! t) idx [h] = Inr cands \<and>
              mset cands \<subseteq># mset nb \<and> distinct (map hyp cands)"
  proof
    fix h assume "h \<in> set beam"
    from expand_beam_single [OF nb this] obtain cands where
      c: "expand_beam a (lp ! t) idx [h] = Inr cands \<and> mset cands \<subseteq># mset nb \<and>
          map hyp cands = hyp h # map (\<lambda>c. hyp h @ [c]) (filter (\<lambda>c. c \<noteq> blank a) idx)"
      by (rule exE)
    then have "distinct (map hyp cands)" using distinct_candidates [OF d] by simp
    with c show "\<exists>cands. expand_beam a (lp ! t) idx [h] = Inr cands \<and>
              mset cands \<subseteq># mset nb \<and> distinct (map hyp cands)"
      by (intro exI [of _ cands]) simp
  qed
  have one: "beam_width a \<le> 1 \<longrightarrow> distinct (map hyp beam')"
  proof
    assume "beam_width a \<le> 1"
    then have "length beam' \<le> 1" unfolding beam' by simp
    then show "distinct (map hyp beam')"
      by (cases beam') (auto simp: Suc_le_eq)
  qed
  show ?thesis using idx nb sub par one
    by (intro exI [of _ idx] exI [of _ nb] conjI)
qed

theorem time_step_no_merge_witness:
  "time_step (exArgs 0 0 ''rescoring'') exT 1 beam1 = Inr beam2 \<and>
   (\<exists>new_beam. expand_beam (exArgs 0 0 ''rescoring'') row1 [1, 0] beam1 = Inr new_beam \<and>
      mset beam2 \<subseteq># mset new_beam)"
proof -
  have s: "time_step (exArgs 0 0 ''rescoring'') exT 1 beam1 = Inr beam2" by (rule step1)
  from time_step_no_merge [OF s] obtain idx nb where
    "topk (min (beam_width (exArgs 0 0 ''rescoring'')) (int (vocab (exArgs 0 0 ''rescoring''))))
       (exT ! 1) = Inr idx"
    and "expand_beam (exArgs 0 0 ''rescoring'') (exT ! 1) idx beam1 = Inr nb"
    and "mset beam2 \<subseteq># mset nb"
    by blast
  then show ?thesis using s topk1 by (auto simp: exArgs_def exT_def)
qed

text \<open>
  C4 as stated fails on a tie: after the frame of \<open>exTie\<close> the hypotheses \<open>[2]\<close> and
  \<open>[2, 1]\<close> have the same score; the beam keeps \<open>[2]\<close>, generated first, in front, where
  the specification's order puts the longer \<open>[2, 1]\<close>, and the decoder returns the empty
  sequence.
\<close>

theorem tie_order_counterexample:
  "time_step (exArgs 0 0 ''rescoring'') exTie 0 (initial_beam (exArgs 0 0 ''rescoring''))
     = Inr beam_tie \<and>
   spec_precedes (beam_tie ! 1) (beam_tie ! 0) \<and>
   beam_search_utt (exArgs 0 0 ''rescoring'') exTie 1 = Inr []"
  using step_tie [of 0 0 "''rescoring''"] best_tie [of 0 0 "''rescoring''"]
  by (simp add: beam_tie_def spec_precedes_def)

text \<open>
  C4, amended.  After a time step the beam is the first \<open>beam_width\<close> candidates of the
  step in descending order of score: the beam followed by the dropped candidates is a
  permutation of the candidates, sorted by descending score, in which candidates of
  equal score keep the order in which the step built them.  The beam has
  \<open>min beam_width (number of candidates)\<close> elements, never more than \<open>beam_width\<close>.
\<close>

theorem time_step_pruning:
  assumes "time_step a lp t beam = Inr beam'"
  shows "\<exists>indices_topk new_beam dropped.
           topk (min (beam_width a) (int (vocab a))) (lp ! t) = Inr indices_topk \<and>
           expand_beam a (lp ! t) indices_topk beam = Inr new_beam \<and>
           length beam' = min (nat (beam_width a)) (length new_beam) \<and>
           int (length beam') \<le> beam_width a \<and>
           mset (beam' @ dropped) = mset new_beam \<and>
           sorted_wrt (\<lambda>x y. the (score y) \<le> the (score x)) (beam' @ dropped) \<and>
           (\<forall>s. filter (\<lambda>h. the (score h) = s) (beam' @ dropped)
                = filter (\<lambda>h. the (score h) = s) new_beam)"
proof -
  from assms obtain idx nb where
    idx: "topk (min (beam_width a) (int (vocab a))) (lp ! t) = Inr idx"
    and nb: "expand_beam a (lp ! t) idx beam = Inr nb"
    and beam': "beam' = take (nat (beam_width a)) (sorted_desc (\<lambda>x. the (score x)) nb)"
    and bw: "0 \<le> beam_width a"
    by (rule time_step_unfold)
  let ?sorted = "sorted_desc (\<lambda>x. the (score x)) nb"
  let ?dropped = "drop (nat (beam_width a)) ?sorted"
  have app: "beam' @ ?dropped = ?sorted" unfolding beam' by simp
  have "length beam' = min (nat (beam_width a)) (length nb)"
    unfolding beam' by (simp add: length_sorted_desc min.commute)
  moreover from this have "int (length beam') \<le> beam_width a" using bw by simp
  moreover have "mset (beam' @ ?dropped) = mset nb"
    unfolding app by (rule mset_sorted_desc)
  moreover have "sorted_wrt (\<lambda>x y. the (score y) \<le> the (score x)) (beam' @ ?dropped)"
    unfolding app by (rule sorted_desc_descending)
  moreover have "\<forall>s. filter (\<lambda>h. the (score h) = s) (beam' @ ?dropped)
                = filter (\<lambda>h. the (score h) = s) nb"
    unfolding app by (simp add: sorted_desc_stable)
  ultimately show ?thesis using idx nb
    by (intro exI [of _ idx] exI [of _ nb] exI [of _ ?dropped] conjI)
qed

theorem time_step_pruning_witness:
  "time_step (exArgs 0 0 ''rescoring'') exTie 0 (initial_beam (exArgs 0 0 ''rescoring''))
     = Inr beam_tie \<and>
   int (length beam_tie) \<le> beam_width (exArgs 0 0 ''rescoring'') \<and>
   map hyp beam_tie = [[2], [2, 1]]"
proof -
  have s: "time_step (exArgs 0 0 ''rescoring'') exTie 0 (initial_beam (exArgs 0 0 ''rescoring''))
     = Inr beam_tie" by (rule step_tie)
  from time_step_pruning [OF s]
  have "int (length beam_tie) \<le> beam_width (exArgs 0 0 ''rescoring'')" by blast
  then show ?thesis using s by (simp add: beam_tie_def)
qed

subsection \<open>The length penalty\<close>

lemma not_extended_length_penalty:
  "not_extended (a\<lparr>length_penalty := p\<rparr>) row h = not_extended a row h"
  by (simp add: not_extended_def Let_def)

lemma extended_length_penalty:
  "extended (a\<lparr>length_penalty := p\<rparr>) row h cs clm = extended a row h cs clm"
  by (induction cs arbitrary: clm) (simp_all add: Let_def cong: option.case_cong sum.case_cong)

lemma expand_beam_length_penalty:
  "expand_beam (a\<lparr>length_penalty := p\<rparr>) row idx beam = expand_beam a row idx beam"
  by (induction beam) (simp_all add: not_extended_length_penalty extended_length_penalty cong: sum.case_cong option.case_cong)

lemma time_step_length_penalty:
  "time_step (a\<lparr>length_penalty := p\<rparr>) lp t beam = time_step a lp t beam"
  by (simp add: time_step_def expand_beam_length_penalty cong: sum.case_cong option.case_cong)

lemma time_loop_length_penalty:
  "time_loop (a\<lparr>length_penalty := p\<rparr>) lp ts beam = time_loop a lp ts beam"
  by (induction ts arbitrary: beam) (simp_all add: time_step_length_penalty cong: sum.case_cong option.case_cong)

lemma final_beam_length_penalty:
  "final_beam (a\<lparr>length_penalty := p\<rparr>) lp n = final_beam a lp n"
  by (simp add: final_beam_def time_loop_length_penalty initial_beam_def rescoring_def
      cong: sum.case_cong option.case_cong if_cong)

lemma beam_search_utt_length_penalty:
  "beam_search_utt (a\<lparr>length_penalty := p\<rparr>) lp n = beam_search_utt a lp n"
  by (simp add: beam_search_utt_def final_beam_length_penalty cong: sum.case_cong option.case_cong)

text \<open>
  C9.  The code does not apply \<^verbatim>\<open>length_penalty\<close>: on \<open>exT\<close> the final beams for the
  penalties 1 and 0 are equal, scores included, although each of the two final
  hypotheses has one extension.
\<close>

theorem length_penalty_ignored:
  "final_beam (exArgs 0 1 ''rescoring'') exT 2 = final_beam (exArgs 0 0 ''rescoring'') exT 2 \<and>
   map_sum id (map fst) (final_beam (exArgs 0 1 ''rescoring'') exT 2) = Inr [[2, 1], [2, 1]]"
  by (simp add: final2)

subsection \<open>Decoding without a language model\<close>

lemma not_extended_no_lm:
  assumes "clm_score h = 0"
  shows "not_extended (a\<lparr>lm_weight := w, lm_usage := u\<rparr>) row h = not_extended a row h"
  using assms by (simp add: not_extended_def Let_def)

lemma extended_no_lm:
  assumes "lm a = None"
  shows "extended (a\<lparr>lm_weight := w, lm_usage := u\<rparr>) row h cs 0 = extended a row h cs 0"
  using assms by (induction cs) (simp_all add: Let_def cong: option.case_cong sum.case_cong)

lemma extended_clm_zero:
  assumes "lm a = None" and "extended a row h cs 0 = Inr es"
  shows "\<forall>e \<in> set es. clm_score e = 0"
  using assms
proof (induction cs arbitrary: es)
  case Nil
  then show ?case by simp
next
  case (Cons c cs)
  show ?case
  proof (cases "c = blank a")
    case True
    with Cons.prems have "extended a row h cs 0 = Inr es" by (simp split: if_splits)
    with Cons.IH Cons.prems(1) show ?thesis by simp
  next
    case False
    with Cons.prems obtain rest e where
      rest: "extended a row h cs 0 = Inr rest" and es: "es = e # rest" and e: "clm_score e = 0"
      by (auto simp: Let_def split: if_splits sum.splits)
    from Cons.IH [OF Cons.prems(1) rest] es e show ?thesis by simp
  qed
qed

lemma expand_beam_no_lm:
  assumes "lm a = None" and "\<forall>h \<in> set beam. clm_score h = 0"
  shows "expand_beam (a\<lparr>lm_weight := w, lm_usage := u\<rparr>) row idx beam = expand_beam a row idx beam"
  using assms(2)
  by (induction beam) (simp_all add: not_extended_no_lm extended_no_lm [OF assms(1)] cong: sum.case_cong option.case_cong)

lemma expand_beam_clm_zero:
  assumes "lm a = None" and "\<forall>h \<in> set beam. clm_score h = 0"
    and "expand_beam a row idx beam = Inr nb"
  shows "\<forall>h \<in> set nb. clm_score h = 0"
proof
  fix h' assume "h' \<in> set nb"
  with expand_beam_parts [OF assms(3)] obtain h where h: "h \<in> set beam"
    and "not_extended a row h = Inr h' \<or>
       (\<exists>es. extended a row h idx (clm_score h) = Inr es \<and> h' \<in> set es)"
    by blast
  then show "clm_score h' = 0"
    using assms(2) not_extended_hyp extended_clm_zero [OF assms(1)] by (metis (no_types, lifting))
qed

lemma time_step_subset:
  assumes "time_step a lp t beam = Inr beam'"
  obtains idx nb where "expand_beam a (lp ! t) idx beam = Inr nb" and "set beam' \<subseteq> set nb"
proof -
  from assms obtain idx nb where
    nb: "expand_beam a (lp ! t) idx beam = Inr nb"
    and beam': "beam' = take (nat (beam_width a)) (sorted_desc (\<lambda>x. the (score x)) nb)"
    by (rule time_step_unfold)
  have "set beam' \<subseteq> set (sorted_desc (\<lambda>x. the (score x)) nb)"
    unfolding beam' by (rule set_take_subset)
  then have "set beam' \<subseteq> set nb" by (simp add: set_sorted_desc)
  with nb show ?thesis using that by blast
qed

lemma time_step_no_lm:
  assumes "lm a = None" and "\<forall>h \<in> set beam. clm_score h = 0"
  shows "time_step (a\<lparr>lm_weight := w, lm_usage := u\<rparr>) lp t beam = time_step a lp t beam"
  using assms by (simp add: time_step_def expand_beam_no_lm cong: sum.case_cong option.case_cong)

lemma time_step_clm_zero:
  assumes "lm a = None" and "\<forall>h \<in> set beam. clm_score h = 0"
    and "time_step a lp t beam = Inr beam'"
  shows "\<forall>h \<in> set beam'. clm_score h = 0"
proof -
  from assms(3) obtain idx nb where nb: "expand_beam a (lp ! t) idx beam = Inr nb"
    and sub: "set beam' \<subseteq> set nb"
    by (rule time_step_subset)
  from expand_beam_clm_zero [OF assms(1,2) nb] sub show ?thesis by blast
qed

lemma time_loop_no_lm:
  assumes "lm a = None" and "\<forall>h \<in> set beam. clm_score h = 0"
  shows "time_loop (a\<lparr>lm_weight := w, lm_usage := u\<rparr>) lp ts beam = time_loop a lp ts beam"
  using assms(2)
proof (induction ts arbitrary: beam)
  case Nil
  then show ?case by simp
next
  case (Cons t ts)
  have eq: "time_step (a\<lparr>lm_weight := w, lm_usage := u\<rparr>) lp t beam = time_step a lp t beam"
    using assms(1) Cons.prems by (rule time_step_no_lm)
  show ?case
  proof (cases "time_step a lp t beam")
    case (Inl e)
    with eq show ?thesis by simp
  next
    case (Inr beam')
    from time_step_clm_zero [OF assms(1) Cons.prems Inr] have "\<forall>h \<in> set beam'. clm_score h = 0" .
    from Cons.IH [OF this] eq Inr show ?thesis by simp
  qed
qed

lemma final_beam_no_lm:
  assumes "lm a = None"
  shows "final_beam (a\<lparr>lm_weight := w, lm_usage := u\<rparr>) lp n = final_beam a lp n"
proof -
  have "\<forall>h \<in> set (initial_beam a). clm_score h = 0" by (simp add: initial_beam_def LOG_1_def)
  from time_loop_no_lm [OF assms this] assms show ?thesis
    by (simp add: final_beam_def initial_beam_def rescoring_def cong: sum.case_cong option.case_cong)
qed

text \<open>
  C2 as stated fails: with no language model and a positive weight, the call returns
  the sequence \<open>[1]\<close> for the usage \<^verbatim>\<open>shallow_fusion\<close> and for the usage \<^verbatim>\<open>rescoring\<close>;
  no error is raised.
\<close>

theorem no_scorer_skips_fusion_counterexample:
  "lm (exArgs (1/2) 0 ''shallow_fusion'') = None \<and>
   beam_search_utt (exArgs (1/2) 0 ''shallow_fusion'') exT 2 = Inr [1] \<and>
   lm (exArgs (1/2) 0 ''rescoring'') = None \<and>
   beam_search_utt (exArgs (1/2) 0 ''rescoring'') exT 2 = Inr [1]"
  by (simp add: best2) (simp add: exArgs_def)

text \<open>
  C2, amended.  With no language model the usage and the weight are ignored: the final
  beam and the result of the call are those of the call with weight 0 and any usage,
  errors included.
\<close>

theorem no_scorer_is_pure_ctc:
  assumes "lm a = None"
  shows "final_beam a lp n = final_beam (a\<lparr>lm_weight := 0, lm_usage := u\<rparr>) lp n \<and>
         beam_search_utt a lp n = beam_search_utt (a\<lparr>lm_weight := 0, lm_usage := u\<rparr>) lp n"
  using final_beam_no_lm [OF assms, where w = 0 and u = u and lp = lp and n = n] by (simp add: beam_search_utt_def cong: sum.case_cong option.case_cong)

theorem no_scorer_is_pure_ctc_witness:
  "beam_search_utt (exArgs (1/2) 0 ''shallow_fusion'') exT 2
     = beam_search_utt (exArgs 0 0 ''none'') exT 2 \<and>
   beam_search_utt (exArgs 0 0 ''none'') exT 2 = Inr [1]"
proof -
  have "lm (exArgs (1/2) 0 ''shallow_fusion'') = None" by (simp add: exArgs_def)
  from no_scorer_is_pure_ctc [OF this, where lp = exT and n = 2 and u = "''none''"]
  have "beam_search_utt (exArgs (1/2) 0 ''shallow_fusion'') exT 2
     = beam_search_utt ((exArgs (1/2) 0 ''shallow_fusion'')\<lparr>lm_weight := 0, lm_usage := ''none''\<rparr>) exT 2"
    by simp
  moreover have "(exArgs (1/2) 0 ''shallow_fusion'')\<lparr>lm_weight := 0, lm_usage := ''none''\<rparr>
     = exArgs 0 0 ''none''" by (simp add: exArgs_def)
  ultimately show ?thesis by (simp add: best2)
qed

subsection \<open>Blank labels\<close>

lemma extended_member:
  assumes "extended a row h cs clm = Inr es" and "e \<in> set es"
  shows "\<exists>c. c \<noteq> blank a \<and> c \<in> set cs \<and> hyp e = hyp h @ [c]"
proof -
  have "hyp e \<in> set (map hyp es)" using assms(2) by simp
  also have "map hyp es = map (\<lambda>c. hyp h @ [c]) (filter (\<lambda>c. c \<noteq> blank a) cs)"
    using extended_hyps [OF assms(1)] by simp
  finally show ?thesis by auto
qed

lemma time_step_marker:
  assumes "time_step a lp t beam = Inr beam'"
    and "\<forall>h \<in> set beam. \<exists>labels. hyp h = eos a # labels \<and> blank a \<notin> set labels"
  shows "\<forall>h \<in> set beam'. \<exists>labels. hyp h = eos a # labels \<and> blank a \<notin> set labels"
proof
  fix h' assume h': "h' \<in> set beam'"
  from assms(1) obtain idx nb where nb: "expand_beam a (lp ! t) idx beam = Inr nb"
    and sub: "set beam' \<subseteq> set nb"
    by (rule time_step_subset)
  from h' sub have "h' \<in> set nb" by blast
  with expand_beam_parts [OF nb] obtain h where h: "h \<in> set beam"
    and cases: "not_extended a (lp ! t) h = Inr h' \<or>
       (\<exists>es. extended a (lp ! t) h idx (clm_score h) = Inr es \<and> h' \<in> set es)"
    by blast
  from assms(2) h obtain labels where l: "hyp h = eos a # labels" "blank a \<notin> set labels"
    by blast
  from cases show "\<exists>labels. hyp h' = eos a # labels \<and> blank a \<notin> set labels"
  proof
    assume "not_extended a (lp ! t) h = Inr h'"
    then have "hyp h' = hyp h" using not_extended_hyp by blast
    with l show ?thesis by simp
  next
    assume "\<exists>es. extended a (lp ! t) h idx (clm_score h) = Inr es \<and> h' \<in> set es"
    then obtain c where "c \<noteq> blank a" "hyp h' = hyp h @ [c]"
      using extended_member by blast
    with l have "hyp h' = eos a # (labels @ [c]) \<and> blank a \<notin> set (labels @ [c])" by simp
    then show ?thesis by blast
  qed
qed

lemma time_loop_marker:
  assumes "time_loop a lp ts beam = Inr beam'"
    and "\<forall>h \<in> set beam. \<exists>labels. hyp h = eos a # labels \<and> blank a \<notin> set labels"
  shows "\<forall>h \<in> set beam'. \<exists>labels. hyp h = eos a # labels \<and> blank a \<notin> set labels"
  using assms
proof (induction ts arbitrary: beam)
  case Nil
  then show ?case by simp
next
  case (Cons t ts)
  from Cons.prems(1) obtain mid where mid: "time_step a lp t beam = Inr mid"
    and rest: "time_loop a lp ts mid = Inr beam'"
    by (auto split: sum.splits)
  from time_step_marker [OF mid Cons.prems(2)] Cons.IH [OF rest] show ?case by blast
qed

lemma initial_beam_marker:
  "\<forall>h \<in> set (initial_beam a). \<exists>labels. hyp h = eos a # labels \<and> blank a \<notin> set labels"
  by (simp add: initial_beam_def)

lemma rescoring_hyps: "fst ` set (rescoring a beam) \<subseteq> hyp ` set beam"
  by (auto simp: rescoring_def set_sorted_desc split: option.splits)

lemma beam_search_utt_from_beam:
  assumes "beam_search_utt a lp elen = Inr best"
  obtains beam h where "time_loop a lp [0..<elen] (initial_beam a) = Inr beam"
    and "h \<in> set beam" and "best = drop 1 (hyp h)"
proof -
  from assms obtain fb ys s rest where fb: "final_beam a lp elen = Inr fb"
    and hd: "fb = (ys, s) # rest" and best: "best = drop 1 ys"
    by (auto simp: beam_search_utt_def split: sum.splits list.splits)
  from fb obtain beam where beam: "time_loop a lp [0..<elen] (initial_beam a) = Inr beam"
    and resc: "fb = rescoring a beam"
    by (auto simp: final_beam_def split: sum.splits)
  have "ys \<in> fst ` set (rescoring a beam)" using hd resc by (metis fst_conv image_eqI list.set_intros(1))
  with rescoring_hyps obtain h where "h \<in> set beam" "ys = hyp h" by blast
  with beam best show ?thesis using that by blast
qed

text \<open>
  C10.  Every hypothesis of the beam after any number of frames is the marker \<^verbatim>\<open>eos\<close>
  followed by labels different from blank, and the sequence that the call returns, the
  best hypothesis without its marker, contains no blank.
\<close>

theorem beam_hyps_without_blank:
  assumes "beam_search_utt a lp elen = Inr best"
  shows "blank a \<notin> set best \<and>
         (\<forall>n beam. time_loop a lp [0..<n] (initial_beam a) = Inr beam \<longrightarrow>
            (\<forall>h \<in> set beam. \<exists>labels. hyp h = eos a # labels \<and> blank a \<notin> set labels))"
proof -
  from assms obtain beam h where beam: "time_loop a lp [0..<elen] (initial_beam a) = Inr beam"
    and h: "h \<in> set beam" and best: "best = drop 1 (hyp h)"
    by (rule beam_search_utt_from_beam)
  from time_loop_marker [OF beam initial_beam_marker] h obtain labels where
    "hyp h = eos a # labels" "blank a \<notin> set labels" by blast
  with best have "blank a \<notin> set best" by simp
  moreover have "\<forall>n beam. time_loop a lp [0..<n] (initial_beam a) = Inr beam \<longrightarrow>
            (\<forall>h \<in> set beam. \<exists>labels. hyp h = eos a # labels \<and> blank a \<notin> set labels)"
    using time_loop_marker initial_beam_marker by blast
  ultimately show ?thesis by blast
qed

theorem beam_hyps_without_blank_witness:
  "beam_search_utt (exArgs 0 0 ''rescoring'') exT 2 = Inr [1] \<and>
   blank (exArgs 0 0 ''rescoring'') \<notin> set [1 :: nat]"
proof -
  have b: "beam_search_utt (exArgs 0 0 ''rescoring'') exT 2 = Inr [1]" by (rule best2)
  from beam_hyps_without_blank [OF b] show ?thesis using b by blast
qed

subsection \<open>The call returns\<close>

text \<open>
  On a rectangular table with at least \<open>elen\<close> frames and a column for the blank label,
  with a beam width of at least 1 and a number of candidates \<open>min beam_width vocab\<close> that
  the frame can supply, the beam search raises no exception: every index it reads is a
  label of the table, every sorted dictionary has a score, and the final beam is not
  empty.
\<close>

lemma not_extended_returns:
  assumes "blank a < length row" and "\<forall>c \<in> set (tl (hyp h)). c < length row"
  shows "\<exists>u. not_extended a row h = Inr u"
proof (cases "length (hyp h) > 1")
  case True
  then have "last (hyp h) \<in> set (tl (hyp h))"
    by (cases "hyp h") (auto simp: last_in_set)
  with assms True show ?thesis by (simp add: not_extended_def Let_def)
next
  case False
  with assms show ?thesis by (simp add: not_extended_def Let_def)
qed

lemma extended_returns:
  assumes "\<forall>c \<in> set cs. c < length row"
  shows "\<exists>es. extended a row h cs clm = Inr es"
  using assms
proof (induction cs arbitrary: clm)
  case Nil
  then show ?case by simp
next
  case (Cons c cs)
  then have c: "c < length row" and rest: "\<forall>c \<in> set cs. c < length row" by simp_all
  show ?case
  proof (cases "c = blank a")
    case True
    with Cons.IH [OF rest] c show ?thesis by simp
  next
    case False
    let ?clm = "case lm a of None \<Rightarrow> clm
                | Some m \<Rightarrow> if lm_weight a > 0 \<and> lm_usage a = ''shallow_fusion''
                            then lm_token_score m c (clm_hxs h) (clm_cxs h) else clm"
    from Cons.IH [OF rest, of ?clm] obtain es where "extended a row h cs ?clm = Inr es" by blast
    with False c show ?thesis by (simp add: Let_def)
  qed
qed

lemma expand_beam_returns:
  assumes "blank a < length row" and "\<forall>c \<in> set idx. c < length row"
    and "\<forall>h \<in> set beam. \<forall>c \<in> set (tl (hyp h)). c < length row"
  shows "\<exists>nb. expand_beam a row idx beam = Inr nb \<and> (beam \<noteq> [] \<longrightarrow> nb \<noteq> [])"
  using assms(3)
proof (induction beam)
  case Nil
  then show ?case by simp
next
  case (Cons h beam)
  from Cons.prems have h: "\<forall>c \<in> set (tl (hyp h)). c < length row"
    and rest: "\<forall>h \<in> set beam. \<forall>c \<in> set (tl (hyp h)). c < length row" by simp_all
  from not_extended_returns [OF assms(1) h] obtain u where u: "not_extended a row h = Inr u" by blast
  from extended_returns [OF assms(2)] obtain es where
    es: "extended a row h idx (clm_score h) = Inr es" by blast
  from Cons.IH [OF rest] obtain nb where nb: "expand_beam a row idx beam = Inr nb" by blast
  from u es nb show ?case by simp
qed


lemma time_step_returns:
  assumes t: "t < length lp" and bl: "blank a < length (lp ! t)"
    and bw: "0 \<le> beam_width a" and k: "min (beam_width a) (int (vocab a)) \<le> int (length (lp ! t))"
    and inv: "\<forall>h \<in> set beam. \<forall>c \<in> set (tl (hyp h)). c < length (lp ! t)"
  shows "\<exists>beam'. time_step a lp t beam = Inr beam' \<and>
           (\<forall>h \<in> set beam'. \<forall>c \<in> set (tl (hyp h)). c < length (lp ! t)) \<and>
           (beam \<noteq> [] \<and> 1 \<le> beam_width a \<longrightarrow> beam' \<noteq> [])"
proof -
  let ?row = "lp ! t"
  have "\<not> (min (beam_width a) (int (vocab a)) < 0 \<or>
           int (length ?row) < min (beam_width a) (int (vocab a)))"
    using bw k by linarith
  then obtain idx where idx: "topk (min (beam_width a) (int (vocab a))) ?row = Inr idx"
    unfolding topk_def by (simp only: if_False)
  have idx_lt: "\<forall>c \<in> set idx. c < length ?row" using topk_distinct [OF idx] by simp
  from expand_beam_returns [OF bl idx_lt inv] obtain nb where
    nb: "expand_beam a ?row idx beam = Inr nb" and ne: "beam \<noteq> [] \<longrightarrow> nb \<noteq> []" by blast
  let ?beam' = "take (nat (beam_width a)) (sorted_desc (\<lambda>x. the (score x)) nb)"
  from expand_beam_scored [OF nb] have "\<not> (\<exists>x \<in> set nb. score x = None)" by blast
  then have pr: "pruning (beam_width a) nb = Inr ?beam'"
    using bw by (simp add: pruning_def sorted_by_score_def py_take_def)
  have res: "time_step a lp t beam = Inr ?beam'"
    using t idx nb pr by (simp add: time_step_def)
  have sub: "set ?beam' \<subseteq> set nb"
    using set_take_subset [of "nat (beam_width a)" "sorted_desc (\<lambda>x. the (score x)) nb"]
    by (simp add: set_sorted_desc)
  have labels: "\<forall>h \<in> set ?beam'. \<forall>c \<in> set (tl (hyp h)). c < length ?row"
  proof
    fix h' assume "h' \<in> set ?beam'"
    with sub have "h' \<in> set nb" by blast
    with expand_beam_parts [OF nb] obtain h where h: "h \<in> set beam"
      and cases: "not_extended a ?row h = Inr h' \<or>
         (\<exists>es. extended a ?row h idx (clm_score h) = Inr es \<and> h' \<in> set es)"
      by blast
    from cases show "\<forall>c \<in> set (tl (hyp h')). c < length ?row"
    proof
      assume "not_extended a ?row h = Inr h'"
      then have "hyp h' = hyp h" using not_extended_hyp by blast
      with inv h show ?thesis by simp
    next
      assume "\<exists>es. extended a ?row h idx (clm_score h) = Inr es \<and> h' \<in> set es"
      then obtain c where c: "c \<in> set idx" "hyp h' = hyp h @ [c]"
        using extended_member by blast
      have "set (tl (hyp h @ [c])) \<subseteq> set (tl (hyp h)) \<union> {c}"
        by (cases "hyp h") auto
      with c inv h idx_lt show ?thesis by auto
    qed
  qed
  have "beam \<noteq> [] \<and> 1 \<le> beam_width a \<longrightarrow> ?beam' \<noteq> []"
  proof
    assume a: "beam \<noteq> [] \<and> 1 \<le> beam_width a"
    with ne have "sorted_desc (\<lambda>x. the (score x)) nb \<noteq> []"
      using length_sorted_desc [of "\<lambda>x. the (score x)" nb] by auto
    moreover have "0 < nat (beam_width a)" using a by simp
    ultimately show "?beam' \<noteq> []" by (simp add: take_eq_Nil)
  qed
  with res labels show ?thesis by blast
qed

lemma time_loop_returns:
  assumes ts: "\<forall>t \<in> set ts. t < length lp"
    and rows: "\<forall>row \<in> set lp. length row = V" and bl: "blank a < V"
    and bw: "1 \<le> beam_width a" and k: "min (beam_width a) (int (vocab a)) \<le> int V"
    and inv: "\<forall>h \<in> set beam. \<forall>c \<in> set (tl (hyp h)). c < V" and ne: "beam \<noteq> []"
  shows "\<exists>beam'. time_loop a lp ts beam = Inr beam' \<and> beam' \<noteq> []"
  using ts inv ne
proof (induction ts arbitrary: beam)
  case Nil
  then show ?case by simp
next
  case (Cons t ts)
  then have t: "t < length lp" and rest: "\<forall>t \<in> set ts. t < length lp" by simp_all
  have len: "length (lp ! t) = V" using rows t by simp
  have "\<exists>beam'. time_step a lp t beam = Inr beam' \<and>
           (\<forall>h \<in> set beam'. \<forall>c \<in> set (tl (hyp h)). c < length (lp ! t)) \<and>
           (beam \<noteq> [] \<and> 1 \<le> beam_width a \<longrightarrow> beam' \<noteq> [])"
    using t bl bw k Cons.prems(2) len by (intro time_step_returns) simp_all
  then obtain mid where mid: "time_step a lp t beam = Inr mid"
    and inv': "\<forall>h \<in> set mid. \<forall>c \<in> set (tl (hyp h)). c < V" and ne': "mid \<noteq> []"
    using len bw Cons.prems(3) by auto
  from Cons.IH [OF rest inv' ne'] mid show ?case by simp
qed

lemma beam_search_utt_returns:
  assumes "elen \<le> length lp" and "\<forall>row \<in> set lp. length row = V" and "blank a < V"
    and "1 \<le> beam_width a" and "min (beam_width a) (int (vocab a)) \<le> int V"
  shows "\<exists>best. beam_search_utt a lp elen = Inr best"
proof -
  have "\<forall>t \<in> set [0..<elen]. t < length lp" using assms(1) by simp
  moreover have "\<forall>h \<in> set (initial_beam a). \<forall>c \<in> set (tl (hyp h)). c < V"
    by (simp add: initial_beam_def)
  moreover have "initial_beam a \<noteq> []" by (simp add: initial_beam_def)
  ultimately obtain beam where beam: "time_loop a lp [0..<elen] (initial_beam a) = Inr beam"
    and ne: "beam \<noteq> []"
    using time_loop_returns [OF _ assms(2-5)] by blast
  have "length (rescoring a beam) = length beam"
    by (simp add: rescoring_def length_sorted_desc split: option.splits)
  with ne have "rescoring a beam \<noteq> []" by auto
  then obtain ys s rest where "rescoring a beam = (ys, s) # rest"
    by (cases "rescoring a beam") auto
  with beam show ?thesis by (simp add: beam_search_utt_def final_beam_def)
qed

end
